theory Spec2Isabelle
  imports Main
begin

section \<open>Memory: arrays allocated by \<^verbatim>\<open>new[]\<close>\<close>

text \<open>
  The container of \<^verbatim>\<open>simple_vector.h\<close> keeps its elements in an array that it owns through
  an \<^verbatim>\<open>ArrayPtr\<close>, and hands out raw pointers into that array as iterators and references.
  The store is a list of arrays: the address of an array is its index in the store, an
  array that was released is \<open>None\<close>, and an allocation appends a new array, so its
  address is one that no pointer held before. A pointer is the address of an array (or
  \<open>None\<close> for \<^verbatim>\<open>nullptr\<close>) and an offset into it.

  Sizes are natural numbers: an array of \<open>n\<close> elements was really allocated, which keeps
  every capacity far below the point where \<^verbatim>\<open>size_t\<close> doubling would wrap, and an
  allocation always succeeds.
\<close>

type_synonym 'a heap = "'a list option list"

type_synonym ptr = "nat option \<times> nat"

datatype error =
    OutOfRange       \<comment> \<open>\<^verbatim>\<open>std::out_of_range\<close>, thrown by \<^verbatim>\<open>At\<close>\<close>
  | AssertionFailed  \<comment> \<open>an \<^verbatim>\<open>assert\<close> that does not hold\<close>
  | InvalidAccess    \<comment> \<open>undefined behaviour: a read or write outside a live array\<close>

definition bindE :: "error + 'a \<Rightarrow> ('a \<Rightarrow> error + 'b) \<Rightarrow> error + 'b" where
  "bindE m f = (case m of Inl e \<Rightarrow> Inl e | Inr x \<Rightarrow> f x)"

definition block_of :: "'a heap \<Rightarrow> nat \<Rightarrow> 'a list option" where
  "block_of h a = (if a < length h then h ! a else None)"

definition load :: "ptr \<Rightarrow> 'a heap \<Rightarrow> error + 'a" where
  "load p h =
     (case fst p of
        None \<Rightarrow> Inl InvalidAccess
      | Some a \<Rightarrow>
          (case block_of h a of
             None \<Rightarrow> Inl InvalidAccess
           | Some xs \<Rightarrow> if snd p < length xs then Inr (xs ! snd p) else Inl InvalidAccess))"

definition store :: "ptr \<Rightarrow> 'a \<Rightarrow> 'a heap \<Rightarrow> error + 'a heap" where
  "store p x h =
     (case fst p of
        None \<Rightarrow> Inl InvalidAccess
      | Some a \<Rightarrow>
          (case block_of h a of
             None \<Rightarrow> Inl InvalidAccess
           | Some xs \<Rightarrow>
               if snd p < length xs then Inr (h[a := Some (xs[snd p := x])])
               else Inl InvalidAccess))"

definition ptr_add :: "ptr \<Rightarrow> nat \<Rightarrow> ptr" where
  "ptr_add p n = (fst p, snd p + n)"

definition ptr_sub :: "ptr \<Rightarrow> nat \<Rightarrow> ptr" where
  "ptr_sub p n = (fst p, snd p - n)"

definition ptr_le :: "ptr \<Rightarrow> ptr \<Rightarrow> bool" where
  "ptr_le p q = (fst p = fst q \<and> snd p \<le> snd q)"

definition ptr_less :: "ptr \<Rightarrow> ptr \<Rightarrow> bool" where
  "ptr_less p q = (fst p = fst q \<and> snd p < snd q)"

text \<open>
  The number of elements of a range \<^verbatim>\<open>[first, last)\<close>: both pointers must point into the
  same array, \<^verbatim>\<open>first\<close> not after \<^verbatim>\<open>last\<close>.
\<close>

definition distance :: "ptr \<Rightarrow> ptr \<Rightarrow> error + nat" where
  "distance first last' =
     (if ptr_le first last' then Inr (snd last' - snd first) else Inl InvalidAccess)"

subsection \<open>ArrayPtr\<close>

text \<open>
  Modelled from the spec: \<^verbatim>\<open>array_ptr.h\<close> (class \<^verbatim>\<open>ArrayPtr\<close>, the spec's FixedBuffer) is
  included by \<^verbatim>\<open>simple_vector.h\<close> but is not among the sources. An \<^verbatim>\<open>ArrayPtr\<close> is the raw
  pointer to an array it owns exclusively: constructed with an element count \<open>n\<close> it
  allocates exactly \<open>n\<close> elements ("0 is legal and denotes no storage"), \<^verbatim>\<open>Get()\<close> is the
  base address, indexing is unchecked, \<^verbatim>\<open>swap\<close> exchanges the owned storage, destruction
  releases it. What a freshly allocated element holds is not specified (\<^verbatim>\<open>Type()\<close> for a
  class type, indeterminate for a scalar): it is the parameter \<open>junk\<close>.
\<close>

definition ArrayPtr :: "'a \<Rightarrow> nat \<Rightarrow> 'a heap \<Rightarrow> nat option \<times> 'a heap" where
  "ArrayPtr junk n h =
     (if n = 0 then (None, h) else (Some (length h), h @ [Some (replicate n junk)]))"

definition ArrayPtr_destroy :: "nat option \<Rightarrow> 'a heap \<Rightarrow> 'a heap" where
  "ArrayPtr_destroy p h = (case p of None \<Rightarrow> h | Some a \<Rightarrow> h[a := None])"

definition ArrayPtr_Get :: "nat option \<Rightarrow> ptr" where
  "ArrayPtr_Get p = (p, 0)"

definition ArrayPtr_index :: "nat option \<Rightarrow> nat \<Rightarrow> ptr" where
  "ArrayPtr_index p i = (p, i)"

text \<open>
  Modelled from the spec: the move assignment of \<^verbatim>\<open>ArrayPtr\<close>, "a destructive transfer
  (swap) of ownership". It returns the new target and the new source.
\<close>

definition ArrayPtr_move_assign :: "nat option \<Rightarrow> nat option \<Rightarrow> nat option \<times> nat option" where
  "ArrayPtr_move_assign this other = (other, this)"

subsection \<open>The algorithms of the standard library that the container calls\<close>

text \<open>
  \<^verbatim>\<open>std::move(first, last, d_first)\<close>: \<^verbatim>\<open>for (; first != last; ++first, ++d_first)
  *d_first = std::move(*first); return d_first;\<close>. The loop runs \<open>last - first\<close> times. A
  moved-from element keeps its value here, as it does for a trivially copyable \<^verbatim>\<open>Type\<close>;
  the container never reads a moved-from element again before it is overwritten or
  released. On a range of \<^verbatim>\<open>const\<close> elements (as in \<^verbatim>\<open>Assign\<close>) the same loop copies.
\<close>

fun move_loop :: "nat \<Rightarrow> ptr \<Rightarrow> ptr \<Rightarrow> 'a heap \<Rightarrow> error + (ptr \<times> 'a heap)" where
  "move_loop 0 first d_first h = Inr (d_first, h)"
| "move_loop (Suc n) first d_first h =
     bindE (load first h) (\<lambda>x.
     bindE (store d_first x h) (\<lambda>h'.
     move_loop n (ptr_add first 1) (ptr_add d_first 1) h'))"

definition std_move :: "ptr \<Rightarrow> ptr \<Rightarrow> ptr \<Rightarrow> 'a heap \<Rightarrow> error + (ptr \<times> 'a heap)" where
  "std_move first last' d_first h =
     bindE (distance first last') (\<lambda>n. move_loop n first d_first h)"

text \<open>
  \<^verbatim>\<open>std::move_backward(first, last, d_last)\<close>: \<^verbatim>\<open>while (first != last)
  *(--d_last) = std::move(*(--last));\<close>.
\<close>

fun move_backward_loop :: "nat \<Rightarrow> ptr \<Rightarrow> ptr \<Rightarrow> 'a heap \<Rightarrow> error + 'a heap" where
  "move_backward_loop 0 last' d_last h = Inr h"
| "move_backward_loop (Suc n) last' d_last h =
     (if snd last' = 0 \<or> snd d_last = 0 then Inl InvalidAccess
      else
        bindE (load (fst last', snd last' - 1) h) (\<lambda>x.
        bindE (store (fst d_last, snd d_last - 1) x h) (\<lambda>h'.
        move_backward_loop n (fst last', snd last' - 1) (fst d_last, snd d_last - 1) h')))"

definition std_move_backward :: "ptr \<Rightarrow> ptr \<Rightarrow> ptr \<Rightarrow> 'a heap \<Rightarrow> error + 'a heap" where
  "std_move_backward first last' d_last h =
     bindE (distance first last') (\<lambda>n. move_backward_loop n last' d_last h)"

text \<open>
  \<^verbatim>\<open>std::fill(first, last, value)\<close>: \<^verbatim>\<open>for (; first != last; ++first) *first = value;\<close>.
  The loops of the constructor and of \<^verbatim>\<open>Resize\<close> that assign \<^verbatim>\<open>Type()\<close> to every
  position of a range are this loop with the default value.
\<close>

fun fill_loop :: "nat \<Rightarrow> ptr \<Rightarrow> 'a \<Rightarrow> 'a heap \<Rightarrow> error + 'a heap" where
  "fill_loop 0 first x h = Inr h"
| "fill_loop (Suc n) first x h =
     bindE (store first x h) (\<lambda>h'. fill_loop n (ptr_add first 1) x h')"

definition std_fill :: "ptr \<Rightarrow> ptr \<Rightarrow> 'a \<Rightarrow> 'a heap \<Rightarrow> error + 'a heap" where
  "std_fill first last' x h = bindE (distance first last') (\<lambda>n. fill_loop n first x h)"

text \<open>
  \<^verbatim>\<open>std::equal(first1, last1, first2, last2)\<close> on random-access iterators: \<^verbatim>\<open>false\<close> when
  the two ranges differ in length, otherwise the elementwise comparison.
\<close>

fun equal_loop :: "nat \<Rightarrow> ptr \<Rightarrow> ptr \<Rightarrow> 'a heap \<Rightarrow> error + bool" where
  "equal_loop 0 first1 first2 h = Inr True"
| "equal_loop (Suc n) first1 first2 h =
     bindE (load first1 h) (\<lambda>x.
     bindE (load first2 h) (\<lambda>y.
     if \<not> x = y then Inr False
     else equal_loop n (ptr_add first1 1) (ptr_add first2 1) h))"

definition std_equal :: "ptr \<Rightarrow> ptr \<Rightarrow> ptr \<Rightarrow> ptr \<Rightarrow> 'a heap \<Rightarrow> error + bool" where
  "std_equal first1 last1 first2 last2 h =
     bindE (distance first1 last1) (\<lambda>n1.
     bindE (distance first2 last2) (\<lambda>n2.
     if n1 \<noteq> n2 then Inr False else equal_loop n1 first1 first2 h))"

text \<open>
  \<^verbatim>\<open>std::lexicographical_compare(first1, last1, first2, last2)\<close>:
  \<^verbatim>\<open>for (; first1 != last1 && first2 != last2; ++first1, ++first2) {
    if (*first1 < *first2) return true;  if (*first2 < *first1) return false; }
  return first1 == last1 && first2 != last2;\<close>
\<close>

fun lexicographical_loop :: "nat \<Rightarrow> nat \<Rightarrow> ptr \<Rightarrow> ptr \<Rightarrow> ('a::ord) heap \<Rightarrow> error + bool" where
  "lexicographical_loop 0 n2 first1 first2 h = Inr (n2 \<noteq> 0)"
| "lexicographical_loop (Suc n1) 0 first1 first2 h = Inr False"
| "lexicographical_loop (Suc n1) (Suc n2) first1 first2 h =
     bindE (load first1 h) (\<lambda>x.
     bindE (load first2 h) (\<lambda>y.
     if x < y then Inr True
     else if y < x then Inr False
     else lexicographical_loop n1 n2 (ptr_add first1 1) (ptr_add first2 1) h))"

definition std_lexicographical_compare ::
  "ptr \<Rightarrow> ptr \<Rightarrow> ptr \<Rightarrow> ptr \<Rightarrow> ('a::ord) heap \<Rightarrow> error + bool" where
  "std_lexicographical_compare first1 last1 first2 last2 h =
     bindE (distance first1 last1) (\<lambda>n1.
     bindE (distance first2 last2) (\<lambda>n2.
     lexicographical_loop n1 n2 first1 first2 h))"

section \<open>SimpleVector\<close>

text \<open>
  The data members \<^verbatim>\<open>items_\<close>, \<^verbatim>\<open>size_\<close> and \<^verbatim>\<open>capacity_\<close> of the class. A member
  function takes the object and the store and returns both, updated; one that can fail
  returns the error instead. \<open>dflt\<close> is the value of \<^verbatim>\<open>Type()\<close>. An \<^verbatim>\<open>assert\<close> is
  checked: where its condition is false the function returns \<open>AssertionFailed\<close>.

  A name cannot end in an underscore here, so the members are \<open>items_m\<close>, \<open>size_m\<close> and
  \<open>capacity_m\<close>; \<^verbatim>\<open>begin\<close> and \<^verbatim>\<open>end\<close> are \<open>begin_it\<close> and \<open>end_it\<close>. An iterator is a
  pointer into the array.
\<close>

record SimpleVector =
  items_m :: "nat option"
  size_m :: nat
  capacity_m :: nat

definition SimpleVector_default :: SimpleVector where
  "SimpleVector_default = \<lparr>items_m = None, size_m = 0, capacity_m = 0\<rparr>"

definition begin_it :: "SimpleVector \<Rightarrow> ptr" where
  "begin_it v = ArrayPtr_Get (items_m v)"

definition end_it :: "SimpleVector \<Rightarrow> ptr" where
  "end_it v = ptr_add (begin_it v) (size_m v)"

definition cbegin :: "SimpleVector \<Rightarrow> ptr" where
  "cbegin v = begin_it v"

definition cend :: "SimpleVector \<Rightarrow> ptr" where
  "cend v = end_it v"

definition GetSize :: "SimpleVector \<Rightarrow> nat" where
  "GetSize v = size_m v"

definition GetCapacity :: "SimpleVector \<Rightarrow> nat" where
  "GetCapacity v = capacity_m v"

definition IsEmpty :: "SimpleVector \<Rightarrow> bool" where
  "IsEmpty v = (size_m v = 0)"

definition swap :: "SimpleVector \<Rightarrow> SimpleVector \<Rightarrow> SimpleVector \<times> SimpleVector" where
  "swap this other =
     (\<lparr>items_m = items_m other, size_m = size_m other, capacity_m = capacity_m other\<rparr>,
      \<lparr>items_m = items_m this, size_m = size_m this, capacity_m = capacity_m this\<rparr>)"

text \<open>The destructor: the \<^verbatim>\<open>ArrayPtr\<close> member releases its array.\<close>

definition destroy :: "SimpleVector \<Rightarrow> 'a heap \<Rightarrow> 'a heap" where
  "destroy v h = ArrayPtr_destroy (items_m v) h"

text \<open>\<^verbatim>\<open>explicit SimpleVector(size_t size)\<close> and \<^verbatim>\<open>SimpleVector(size_t size, Type value)\<close>.\<close>

definition SimpleVector_size :: "'a \<Rightarrow> 'a \<Rightarrow> nat \<Rightarrow> 'a heap \<Rightarrow> error + (SimpleVector \<times> 'a heap)" where
  "SimpleVector_size dflt junk sz h =
     (case ArrayPtr junk sz h of (p, h1) \<Rightarrow>
        (let this = \<lparr>items_m = p, size_m = sz, capacity_m = sz\<rparr> in
         bindE (std_fill (begin_it this) (end_it this) dflt h1) (\<lambda>h2. Inr (this, h2))))"

definition SimpleVector_fill :: "'a \<Rightarrow> nat \<Rightarrow> 'a \<Rightarrow> 'a heap \<Rightarrow> error + (SimpleVector \<times> 'a heap)" where
  "SimpleVector_fill junk sz val h =
     (case ArrayPtr junk sz h of (p, h1) \<Rightarrow>
        (let this = \<lparr>items_m = p, size_m = sz, capacity_m = sz\<rparr> in
         bindE (std_fill (begin_it this) (end_it this) val h1) (\<lambda>h2. Inr (this, h2))))"

text \<open>
  \<^verbatim>\<open>Assign(values, size)\<close> for \<^verbatim>\<open>values\<close> another vector: a temporary of \<open>sz\<close> elements,
  the elements of \<^verbatim>\<open>values\<close> copied into it, the swap, and the temporary (now holding what
  \<^verbatim>\<open>this\<close> held) destroyed when it goes out of scope.
\<close>

definition Assign :: "'a \<Rightarrow> 'a \<Rightarrow> SimpleVector \<Rightarrow> nat \<Rightarrow> SimpleVector \<Rightarrow> 'a heap
    \<Rightarrow> error + (SimpleVector \<times> 'a heap)" where
  "Assign dflt junk values sz this h =
     bindE (SimpleVector_size dflt junk sz h) (\<lambda>(tmp, h1).
     bindE (std_move (begin_it values) (end_it values) (begin_it tmp) h1) (\<lambda>(_, h2).
     (case swap this tmp of (this', tmp') \<Rightarrow> Inr (this', destroy tmp' h2))))"

text \<open>
  \<^verbatim>\<open>Assign(values, size)\<close> for \<^verbatim>\<open>values\<close> a \<^verbatim>\<open>std::initializer_list\<close>, whose elements are
  not in the store: the loop of \<^verbatim>\<open>std::move\<close> over the elements of the list.
\<close>

fun move_list :: "'a list \<Rightarrow> ptr \<Rightarrow> 'a heap \<Rightarrow> error + 'a heap" where
  "move_list [] d_first h = Inr h"
| "move_list (x # xs) d_first h =
     bindE (store d_first x h) (\<lambda>h'. move_list xs (ptr_add d_first 1) h')"

definition Assign_list :: "'a \<Rightarrow> 'a \<Rightarrow> 'a list \<Rightarrow> nat \<Rightarrow> SimpleVector \<Rightarrow> 'a heap
    \<Rightarrow> error + (SimpleVector \<times> 'a heap)" where
  "Assign_list dflt junk values sz this h =
     bindE (SimpleVector_size dflt junk sz h) (\<lambda>(tmp, h1).
     bindE (move_list values (begin_it tmp) h1) (\<lambda>h2.
     (case swap this tmp of (this', tmp') \<Rightarrow> Inr (this', destroy tmp' h2))))"

text \<open>\<^verbatim>\<open>SimpleVector(std::initializer_list<Type> init)\<close>\<close>

definition SimpleVector_init :: "'a \<Rightarrow> 'a \<Rightarrow> 'a list \<Rightarrow> 'a heap \<Rightarrow> error + (SimpleVector \<times> 'a heap)" where
  "SimpleVector_init dflt junk init h =
     Assign_list dflt junk init (length init) SimpleVector_default h"

text \<open>\<^verbatim>\<open>SimpleVector(const SimpleVector& other)\<close>\<close>

definition SimpleVector_copy :: "'a \<Rightarrow> 'a \<Rightarrow> SimpleVector \<Rightarrow> 'a heap \<Rightarrow> error + (SimpleVector \<times> 'a heap)" where
  "SimpleVector_copy dflt junk other h =
     Assign dflt junk other (size_m other) SimpleVector_default h"

text \<open>
  \<^verbatim>\<open>Reallocate(new_capacity)\<close>: after the swap the local \<^verbatim>\<open>new_array\<close> owns the old array
  and releases it at the end of the function.
\<close>

definition Reallocate :: "'a \<Rightarrow> nat \<Rightarrow> SimpleVector \<Rightarrow> 'a heap \<Rightarrow> error + (SimpleVector \<times> 'a heap)" where
  "Reallocate junk new_capacity this h =
     (case ArrayPtr junk new_capacity h of (new_array, h1) \<Rightarrow>
        bindE (std_move (ArrayPtr_Get (items_m this))
                 (ptr_add (ArrayPtr_Get (items_m this)) (size_m this))
                 (ArrayPtr_Get new_array) h1) (\<lambda>(_, h2).
        Inr (this\<lparr>items_m := new_array, capacity_m := new_capacity\<rparr>,
             ArrayPtr_destroy (items_m this) h2)))"

definition Reserve :: "'a \<Rightarrow> nat \<Rightarrow> SimpleVector \<Rightarrow> 'a heap \<Rightarrow> error + (SimpleVector \<times> 'a heap)" where
  "Reserve junk new_capacity this h =
     (if capacity_m this < new_capacity then Reallocate junk new_capacity this h
      else Inr (this, h))"

text \<open>
  The class \<^verbatim>\<open>ReserveProxyObj\<close>, the free function \<^verbatim>\<open>Reserve(capacity_to_reserve)\<close> that
  makes one, and the constructor \<^verbatim>\<open>SimpleVector(const ReserveProxyObj& obj)\<close>.
\<close>

record ReserveProxyObj =
  capacity_to_reserve_m :: nat

definition GetCapacityToReserve :: "ReserveProxyObj \<Rightarrow> nat" where
  "GetCapacityToReserve obj = capacity_to_reserve_m obj"

definition Reserve_proxy :: "nat \<Rightarrow> ReserveProxyObj" where
  "Reserve_proxy capacity_to_reserve = \<lparr>capacity_to_reserve_m = capacity_to_reserve\<rparr>"

definition SimpleVector_reserve :: "'a \<Rightarrow> ReserveProxyObj \<Rightarrow> 'a heap \<Rightarrow> error + (SimpleVector \<times> 'a heap)" where
  "SimpleVector_reserve junk obj h =
     Reserve junk (GetCapacityToReserve obj) SimpleVector_default h"

text \<open>
  \<^verbatim>\<open>SimpleVector(SimpleVector&& other)\<close>: the new object starts from the default member
  initialisers. The result is the new object and \<^verbatim>\<open>other\<close> as the constructor leaves it.
\<close>

definition SimpleVector_move :: "SimpleVector \<Rightarrow> SimpleVector \<times> SimpleVector" where
  "SimpleVector_move other =
     (case ArrayPtr_move_assign None (items_m other) of (p, q) \<Rightarrow>
        (\<lparr>items_m = p, size_m = size_m other, capacity_m = capacity_m other\<rparr>,
         \<lparr>items_m = q, size_m = 0, capacity_m = 0\<rparr>))"

text \<open>
  \<^verbatim>\<open>SimpleVector& operator=(SimpleVector&&) = default;\<close>: the defaulted move assignment
  move-assigns member by member, and moving a \<^verbatim>\<open>size_t\<close> copies it. The result is the
  target and the source after the assignment.
\<close>

definition move_assign :: "SimpleVector \<Rightarrow> SimpleVector \<Rightarrow> SimpleVector \<times> SimpleVector" where
  "move_assign this other =
     (case ArrayPtr_move_assign (items_m this) (items_m other) of (p, q) \<Rightarrow>
        (\<lparr>items_m = p, size_m = size_m other, capacity_m = capacity_m other\<rparr>,
         \<lparr>items_m = q, size_m = size_m other, capacity_m = capacity_m other\<rparr>))"

text \<open>
  \<^verbatim>\<open>operator=(const SimpleVector& rhs)\<close>; \<open>same\<close> says whether \<^verbatim>\<open>this == &rhs\<close>.
\<close>

definition copy_assign :: "'a \<Rightarrow> 'a \<Rightarrow> bool \<Rightarrow> SimpleVector \<Rightarrow> SimpleVector \<Rightarrow> 'a heap
    \<Rightarrow> error + (SimpleVector \<times> 'a heap)" where
  "copy_assign dflt junk same rhs this h =
     (if \<not> same then
        bindE (SimpleVector_copy dflt junk rhs h) (\<lambda>(tmp, h1).
        (case swap this tmp of (this', tmp') \<Rightarrow> Inr (this', destroy tmp' h1)))
      else Inr (this, h))"

definition PushBack :: "'a \<Rightarrow> 'a \<Rightarrow> SimpleVector \<Rightarrow> 'a heap \<Rightarrow> error + (SimpleVector \<times> 'a heap)" where
  "PushBack junk item this h =
     bindE (if capacity_m this = 0 then Reallocate junk 1 this h else Inr (this, h)) (\<lambda>(this1, h1).
     bindE (if size_m this1 = capacity_m this1
            then Reallocate junk (capacity_m this1 * 2) this1 h1 else Inr (this1, h1)) (\<lambda>(this2, h2).
     bindE (store (ArrayPtr_index (items_m this2) (size_m this2)) item h2) (\<lambda>h3.
     Inr (this2\<lparr>size_m := size_m this2 + 1\<rparr>, h3))))"

text \<open>\<^verbatim>\<open>Insert(pos, value)\<close> returns the iterator to the inserted element.\<close>

definition Insert :: "'a \<Rightarrow> 'a \<Rightarrow> ptr \<Rightarrow> 'a \<Rightarrow> SimpleVector \<Rightarrow> 'a heap
    \<Rightarrow> error + (ptr \<times> SimpleVector \<times> 'a heap)" where
  "Insert dflt junk pos val this h =
     (if \<not> (ptr_le (cbegin this) pos \<and> ptr_le pos (cend this)) then Inl AssertionFailed
      else if size_m this < capacity_m this then
        (let it = pos in
         bindE (std_move_backward it (end_it this) (ptr_add (end_it this) 1) h) (\<lambda>h1.
         bindE (store it val h1) (\<lambda>h2.
         Inr (it, this\<lparr>size_m := size_m this + 1\<rparr>, h2))))
      else
        (let new_capacity = (if size_m this = 0 then 1 else capacity_m this * 2) in
         bindE (SimpleVector_size dflt junk new_capacity h) (\<lambda>(tmp, h1).
         bindE (std_move (begin_it this) pos (begin_it tmp) h1) (\<lambda>(it, h2).
         bindE (store it val h2) (\<lambda>h3.
         bindE (std_move pos (end_it this) (ptr_add it 1) h3) (\<lambda>(_, h4).
         (case swap this (tmp\<lparr>size_m := size_m this + 1\<rparr>) of (this', tmp') \<Rightarrow>
            Inr (it, this', destroy tmp' h4))))))))"

text \<open>\<^verbatim>\<open>PopBack\<close> asserts \<^verbatim>\<open>!IsEmpty()\<close>.\<close>

definition PopBack :: "SimpleVector \<Rightarrow> error + SimpleVector" where
  "PopBack this =
     (if \<not> \<not> IsEmpty this then Inl AssertionFailed
      else Inr (this\<lparr>size_m := size_m this - 1\<rparr>))"

definition Erase :: "ptr \<Rightarrow> SimpleVector \<Rightarrow> 'a heap \<Rightarrow> error + (ptr \<times> SimpleVector \<times> 'a heap)" where
  "Erase pos this (h::'a heap) =
     (if \<not> (ptr_le (cbegin this) pos \<and> ptr_less pos (cend this)) then Inl AssertionFailed
      else
        (let it = pos in
         bindE (std_move (ptr_add it 1) (end_it this) it h) (\<lambda>(_, h1).
         Inr (it, this\<lparr>size_m := size_m this - 1\<rparr>, h1))))"

text \<open>
  \<^verbatim>\<open>Type& operator[](size_t index)\<close>: the reference returned is the pointer to the element.
\<close>

definition index_op :: "nat \<Rightarrow> SimpleVector \<Rightarrow> error + ptr" where
  "index_op index this =
     (if \<not> index < size_m this then Inl AssertionFailed
      else Inr (ArrayPtr_index (items_m this) index))"

text \<open>
  \<^verbatim>\<open>const Type& operator[](size_t index) const\<close> asserts \<^verbatim>\<open>index < size\<close>. The class has no
  member \<^verbatim>\<open>size\<close> (its members are \<^verbatim>\<open>items_\<close>, \<^verbatim>\<open>size_\<close> and \<^verbatim>\<open>capacity_\<close>), so whatever that
  name denotes where the header is compiled, it is not the vector's size: it is the
  parameter \<open>sz\<close> here.
\<close>

definition index_op_const :: "nat \<Rightarrow> nat \<Rightarrow> SimpleVector \<Rightarrow> error + ptr" where
  "index_op_const sz index this =
     (if \<not> index < sz then Inl AssertionFailed
      else Inr (ArrayPtr_index (items_m this) index))"

definition At :: "nat \<Rightarrow> SimpleVector \<Rightarrow> error + ptr" where
  "At index this =
     (if index \<ge> size_m this then Inl OutOfRange
      else Inr (ArrayPtr_index (items_m this) index))"

definition Clear :: "SimpleVector \<Rightarrow> SimpleVector" where
  "Clear this = this\<lparr>size_m := 0\<rparr>"

text \<open>
  \<^verbatim>\<open>Resize(new_size)\<close>: the loop runs from \<^verbatim>\<open>end()\<close> to \<^verbatim>\<open>end() + new_size - size_\<close>, the
  pointer \<^verbatim>\<open>begin() + new_size\<close>.
\<close>

definition Resize :: "'a \<Rightarrow> 'a \<Rightarrow> nat \<Rightarrow> SimpleVector \<Rightarrow> 'a heap \<Rightarrow> error + (SimpleVector \<times> 'a heap)" where
  "Resize dflt junk new_size this h =
     bindE (if new_size > capacity_m this
            then (let new_capacity = max new_size (capacity_m this * 2) in
                  Reallocate junk new_capacity this h)
            else Inr (this, h)) (\<lambda>(this1, h1).
     bindE (if new_size > size_m this1
            then std_fill (end_it this1)
                   (ptr_sub (ptr_add (end_it this1) new_size) (size_m this1)) dflt h1
            else Inr h1) (\<lambda>h2.
     Inr (this1\<lparr>size_m := new_size\<rparr>, h2)))"

text \<open>
  The comparison operators; \<open>same\<close> says whether \<^verbatim>\<open>&lhs == &rhs\<close>.
\<close>

definition operator_eq :: "bool \<Rightarrow> SimpleVector \<Rightarrow> SimpleVector \<Rightarrow> 'a heap \<Rightarrow> error + bool" where
  "operator_eq same lhs rhs h =
     (if same then Inr True
      else if GetSize lhs = GetSize rhs
      then std_equal (begin_it lhs) (end_it lhs) (begin_it rhs) (end_it rhs) h
      else Inr False)"

definition operator_less :: "SimpleVector \<Rightarrow> SimpleVector \<Rightarrow> ('a::ord) heap \<Rightarrow> error + bool" where
  "operator_less lhs rhs h =
     std_lexicographical_compare (begin_it lhs) (end_it lhs) (begin_it rhs) (end_it rhs) h"

definition operator_ne :: "bool \<Rightarrow> SimpleVector \<Rightarrow> SimpleVector \<Rightarrow> 'a heap \<Rightarrow> error + bool" where
  "operator_ne same lhs rhs h = bindE (operator_eq same lhs rhs h) (\<lambda>b. Inr (\<not> b))"

definition operator_le :: "SimpleVector \<Rightarrow> SimpleVector \<Rightarrow> ('a::ord) heap \<Rightarrow> error + bool" where
  "operator_le lhs rhs h = bindE (operator_less rhs lhs h) (\<lambda>b. Inr (\<not> b))"

definition operator_greater :: "SimpleVector \<Rightarrow> SimpleVector \<Rightarrow> ('a::ord) heap \<Rightarrow> error + bool" where
  "operator_greater lhs rhs h = operator_less rhs lhs h"

definition operator_ge :: "SimpleVector \<Rightarrow> SimpleVector \<Rightarrow> ('a::ord) heap \<Rightarrow> error + bool" where
  "operator_ge lhs rhs h = operator_le rhs lhs h"

section \<open>Sequences of calls\<close>

text \<open>\<open>N\<close> sequential calls of \<^verbatim>\<open>PushBack\<close>, one for each element of the list.\<close>

fun PushBack_all :: "'a \<Rightarrow> 'a list \<Rightarrow> SimpleVector \<Rightarrow> 'a heap \<Rightarrow> error + (SimpleVector \<times> 'a heap)" where
  "PushBack_all junk [] this h = Inr (this, h)"
| "PushBack_all junk (x # xs) this h =
     bindE (PushBack junk x this h) (\<lambda>(this', h'). PushBack_all junk xs this' h')"

text \<open>
  The ways a caller can change a vector: the mutating member functions, with a position
  given as its offset from \<^verbatim>\<open>begin()\<close>, and an assignment through the reference that \<^verbatim>\<open>At\<close>
  or \<^verbatim>\<open>operator[]\<close> returns. \<open>mutate_all\<close> runs a list of them and stops at the first that
  fails.
\<close>

datatype 'a mutation =
    DoPushBack 'a
  | DoInsert nat 'a
  | DoErase nat
  | DoPopBack
  | DoResize nat
  | DoReserve nat
  | DoClear
  | DoAssignAt nat 'a
  | DoAssignIndex nat 'a

fun mutate :: "'a \<Rightarrow> 'a \<Rightarrow> 'a mutation \<Rightarrow> SimpleVector \<Rightarrow> 'a heap \<Rightarrow> error + (SimpleVector \<times> 'a heap)" where
  "mutate dflt junk (DoPushBack x) this h = PushBack junk x this h"
| "mutate dflt junk (DoInsert i x) this h =
     bindE (Insert dflt junk (ptr_add (begin_it this) i) x this h) (\<lambda>(it, this', h'). Inr (this', h'))"
| "mutate dflt junk (DoErase i) this h =
     bindE (Erase (ptr_add (begin_it this) i) this h) (\<lambda>(it, this', h'). Inr (this', h'))"
| "mutate dflt junk DoPopBack this h = bindE (PopBack this) (\<lambda>this'. Inr (this', h))"
| "mutate dflt junk (DoResize n) this h = Resize dflt junk n this h"
| "mutate dflt junk (DoReserve n) this h = Reserve junk n this h"
| "mutate dflt junk DoClear this h = Inr (Clear this, h)"
| "mutate dflt junk (DoAssignAt i x) this h =
     bindE (At i this) (\<lambda>p. bindE (store p x h) (\<lambda>h'. Inr (this, h')))"
| "mutate dflt junk (DoAssignIndex i x) this h =
     bindE (index_op i this) (\<lambda>p. bindE (store p x h) (\<lambda>h'. Inr (this, h')))"

fun mutate_all :: "'a \<Rightarrow> 'a \<Rightarrow> 'a mutation list \<Rightarrow> SimpleVector \<Rightarrow> 'a heap
    \<Rightarrow> error + (SimpleVector \<times> 'a heap)" where
  "mutate_all dflt junk [] this h = Inr (this, h)"
| "mutate_all dflt junk (m # ms) this h =
     bindE (mutate dflt junk m this h) (\<lambda>(this', h'). mutate_all dflt junk ms this' h')"

section \<open>The class invariant and the sequence a vector holds\<close>

text \<open>
  \<open>buffer h p\<close> is the array an \<^verbatim>\<open>ArrayPtr\<close> owns, \<open>owns h p\<close> says that it is live (or that
  the pointer is null). \<open>valid h v\<close> is the invariant of the class: the vector owns a live
  array whose length is \<^verbatim>\<open>capacity_\<close>, and \<^verbatim>\<open>size_\<close> is at most \<^verbatim>\<open>capacity_\<close>.
  \<open>elements h v\<close> are the elements at the positions \<open>[0, size_)\<close>.
\<close>

definition buffer :: "'a heap \<Rightarrow> nat option \<Rightarrow> 'a list" where
  "buffer h p = (case p of None \<Rightarrow> [] | Some a \<Rightarrow> (case block_of h a of None \<Rightarrow> [] | Some xs \<Rightarrow> xs))"

definition owns :: "'a heap \<Rightarrow> nat option \<Rightarrow> bool" where
  "owns h p = (case p of None \<Rightarrow> True | Some a \<Rightarrow> block_of h a \<noteq> None)"

definition valid :: "'a heap \<Rightarrow> SimpleVector \<Rightarrow> bool" where
  "valid h v = (owns h (items_m v) \<and> capacity_m v = length (buffer h (items_m v))
     \<and> size_m v \<le> capacity_m v)"

definition elements :: "'a heap \<Rightarrow> SimpleVector \<Rightarrow> 'a list" where
  "elements h v = take (size_m v) (buffer h (items_m v))"

text \<open>
  \<open>fresh h p\<close>: the array of \<open>p\<close> was allocated after the store was \<open>h\<close>.
  \<open>frame p h h'\<close>: from \<open>h\<close> to \<open>h'\<close> no array other than that of \<open>p\<close> has changed.
  \<open>step_ok h v h' v'\<close>: a member function that takes the vector \<open>v\<close> in the store \<open>h\<close> to \<open>v'\<close>
  in \<open>h'\<close> keeps the invariant and touches only the vector's own array and new ones.
\<close>

definition fresh :: "'a heap \<Rightarrow> nat option \<Rightarrow> bool" where
  "fresh h p = (case p of None \<Rightarrow> True | Some a \<Rightarrow> length h \<le> a)"

definition frame :: "nat option \<Rightarrow> 'a heap \<Rightarrow> 'a heap \<Rightarrow> bool" where
  "frame p h h' = (length h \<le> length h' \<and>
     (\<forall>c < length h. Some c \<noteq> p \<longrightarrow> block_of h' c = block_of h c))"

definition step_ok :: "'a heap \<Rightarrow> SimpleVector \<Rightarrow> 'a heap \<Rightarrow> SimpleVector \<Rightarrow> bool" where
  "step_ok h v h' v' = (valid h' v' \<and> frame (items_m v) h h'
     \<and> (items_m v' = items_m v \<or> fresh h (items_m v')))"

section \<open>The lexicographic order of the specification\<close>

text \<open>
  The order the specification names for \<^verbatim>\<open>operator<\<close>, in its words: the elements are
  compared pairwise, the first pair that differs decides, and a sequence that is a
  strict prefix of a longer one is less.
\<close>

fun lexicographic_less :: "('a::linorder) list \<Rightarrow> 'a list \<Rightarrow> bool" where
  "lexicographic_less [] [] = False"
| "lexicographic_less [] (y # ys) = True"
| "lexicographic_less (x # xs) [] = False"
| "lexicographic_less (x # xs) (y # ys) = (x < y \<or> (x = y \<and> lexicographic_less xs ys))"

section \<open>The store and the loops\<close>

text \<open>
  What a read, a write and each loop of the standard library do to an array of the store.
  A loop over a range inside one array is described by the array it leaves: the part
  before the target, the elements moved or filled, and the part after.
\<close>

lemma bindE_Inr: "bindE (Inr x) f = f x"
  by (simp add: bindE_def)

lemma bindE_Inl: "bindE (Inl e) f = Inl e"
  by (simp add: bindE_def)

lemma bindE_eq_Inr: "bindE m f = Inr y \<longleftrightarrow> (\<exists>x. m = Inr x \<and> f x = Inr y)"
  by (cases m) (simp_all add: bindE_def)

lemma block_of_SomeD: "block_of h a = Some xs \<Longrightarrow> a < length h \<and> h ! a = Some xs"
  by (simp add: block_of_def split: if_splits)

lemma block_of_update:
  "block_of (h[a := v]) b = (if a = b \<and> a < length h then v else block_of h b)"
  by (simp add: block_of_def)

lemma block_of_append:
  "block_of (h @ [v]) b = (if b = length h then v else block_of h b)"
  by (auto simp add: block_of_def nth_append)

lemma load_Some:
  "block_of h a = Some xs \<Longrightarrow> i < length xs \<Longrightarrow> load (Some a, i) h = Inr (xs ! i)"
  by (simp add: load_def)

lemma store_Some:
  "block_of h a = Some xs \<Longrightarrow> i < length xs \<Longrightarrow>
   store (Some a, i) x h = Inr (h[a := Some (xs[i := x])])"
  by (simp add: store_def)

lemma heap_update_same: "block_of h a = Some xs \<Longrightarrow> h[a := Some xs] = h"
  using block_of_SomeD [of h a xs] list_update_id [of h a] by simp

lemma take_Suc_update: "j < length ys \<Longrightarrow> take (Suc j) (ys[j := x]) = take j ys @ [x]"
  by (simp add: take_Suc_conv_app_nth)

lemma move_loop_other:
  "block_of h s = Some xs \<Longrightarrow> block_of h d = Some ys \<Longrightarrow> s \<noteq> d \<Longrightarrow>
   i + n \<le> length xs \<Longrightarrow> j + n \<le> length ys \<Longrightarrow>
   move_loop n (Some s, i) (Some d, j) h =
     Inr ((Some d, j + n), h[d := Some (take j ys @ take n (drop i xs) @ drop (j + n) ys)])"
proof (induction n arbitrary: i j h ys)
  case 0
  then show ?case
    by (simp add: heap_update_same)
next
  case (Suc n)
  let ?h1 = "h[d := Some (ys[j := xs ! i])]"
  have d: "d < length h" using Suc.prems(2) by (simp add: block_of_SomeD)
  have b1: "block_of ?h1 s = Some xs" using Suc.prems by (simp add: block_of_update)
  have b2: "block_of ?h1 d = Some (ys[j := xs ! i])" using d by (simp add: block_of_update)
  have ih: "move_loop n (Some s, Suc i) (Some d, Suc j) ?h1 =
     Inr ((Some d, Suc j + n), ?h1[d := Some (take (Suc j) (ys[j := xs ! i]) @ take n (drop (Suc i) xs)
        @ drop (Suc j + n) (ys[j := xs ! i]))])"
    using Suc.prems by (intro Suc.IH [OF b1 b2]) simp_all
  have t: "take (Suc n) (drop i xs) = xs ! i # take n (drop (Suc i) xs)"
    using Suc.prems by (simp add: Cons_nth_drop_Suc [symmetric])
  show ?case
    using Suc.prems ih
    by (simp add: bindE_Inr load_Some store_Some ptr_add_def take_Suc_update t)
qed

lemma move_loop_left:
  "block_of h a = Some xs \<Longrightarrow> j \<le> i \<Longrightarrow> i + n \<le> length xs \<Longrightarrow>
   move_loop n (Some a, i) (Some a, j) h =
     Inr ((Some a, j + n), h[a := Some (take j xs @ take n (drop i xs) @ drop (j + n) xs)])"
proof (induction n arbitrary: i j h xs)
  case 0
  then show ?case
    by (simp add: heap_update_same)
next
  case (Suc n)
  let ?xs1 = "xs[j := xs ! i]"
  let ?h1 = "h[a := Some ?xs1]"
  have a: "a < length h" using Suc.prems(1) by (simp add: block_of_SomeD)
  have b1: "block_of ?h1 a = Some ?xs1" using a by (simp add: block_of_update)
  have ih: "move_loop n (Some a, Suc i) (Some a, Suc j) ?h1 =
     Inr ((Some a, Suc j + n), ?h1[a := Some (take (Suc j) ?xs1 @ take n (drop (Suc i) ?xs1)
        @ drop (Suc j + n) ?xs1)])"
    using Suc.prems by (intro Suc.IH [OF b1]) simp_all
  have t: "take (Suc n) (drop i xs) = xs ! i # take n (drop (Suc i) xs)"
    using Suc.prems by (simp add: Cons_nth_drop_Suc [symmetric])
  show ?case
    using Suc.prems ih
    by (simp add: bindE_Inr load_Some store_Some ptr_add_def take_Suc_update t)
qed

lemma move_backward_loop_right:
  "block_of h a = Some xs \<Longrightarrow> i \<le> j \<Longrightarrow> j + n \<le> length xs \<Longrightarrow>
   move_backward_loop n (Some a, i + n) (Some a, j + n) h =
     Inr (h[a := Some (take j xs @ take n (drop i xs) @ drop (j + n) xs)])"
proof (induction n arbitrary: h xs)
  case 0
  then show ?case
    by (simp add: heap_update_same)
next
  case (Suc n)
  let ?xs1 = "xs[j + n := xs ! (i + n)]"
  let ?h1 = "h[a := Some ?xs1]"
  have a: "a < length h" using Suc.prems(1) by (simp add: block_of_SomeD)
  have b1: "block_of ?h1 a = Some ?xs1" using a by (simp add: block_of_update)
  have ih: "move_backward_loop n (Some a, i + n) (Some a, j + n) ?h1 =
     Inr (?h1[a := Some (take j ?xs1 @ take n (drop i ?xs1) @ drop (j + n) ?xs1)])"
    using Suc.prems by (intro Suc.IH [OF b1]) simp_all
  have t: "take (Suc n) (drop i xs) = take n (drop i xs) @ [xs ! (i + n)]"
    using Suc.prems by (simp add: take_Suc_conv_app_nth)
  have d: "drop (j + n) ?xs1 = xs ! (i + n) # drop (Suc (j + n)) xs"
    using Suc.prems by (simp add: drop_update_cancel Cons_nth_drop_Suc [symmetric])
  have t2: "take n (drop i ?xs1) = take n (drop i xs)"
    using Suc.prems by (simp add: drop_update_swap)
  show ?case
    using Suc.prems ih
    by (simp add: bindE_Inr load_Some store_Some t d t2)
qed

lemma fill_loop_block:
  "block_of h d = Some ys \<Longrightarrow> j + n \<le> length ys \<Longrightarrow>
   fill_loop n (Some d, j) x h =
     Inr (h[d := Some (take j ys @ replicate n x @ drop (j + n) ys)])"
proof (induction n arbitrary: j h ys)
  case 0
  then show ?case by (simp add: heap_update_same)
next
  case (Suc n)
  let ?h1 = "h[d := Some (ys[j := x])]"
  have d: "d < length h" using Suc.prems(1) by (simp add: block_of_SomeD)
  have b: "block_of ?h1 d = Some (ys[j := x])" using d by (simp add: block_of_update)
  have ih: "fill_loop n (Some d, Suc j) x ?h1 =
     Inr (?h1[d := Some (take (Suc j) (ys[j := x]) @ replicate n x @ drop (Suc j + n) (ys[j := x]))])"
    using Suc.prems by (intro Suc.IH [OF b]) simp_all
  show ?case
    using Suc.prems ih
    by (simp add: bindE_Inr store_Some ptr_add_def take_Suc_update)
qed

lemma move_list_block:
  "block_of h d = Some ys \<Longrightarrow> j + length xs \<le> length ys \<Longrightarrow>
   move_list xs (Some d, j) h =
     Inr (h[d := Some (take j ys @ xs @ drop (j + length xs) ys)])"
proof (induction xs arbitrary: j h ys)
  case Nil
  then show ?case by (simp add: heap_update_same)
next
  case (Cons x xs)
  let ?h1 = "h[d := Some (ys[j := x])]"
  have d: "d < length h" using Cons.prems(1) by (simp add: block_of_SomeD)
  have b: "block_of ?h1 d = Some (ys[j := x])" using d by (simp add: block_of_update)
  have ih: "move_list xs (Some d, Suc j) ?h1 =
     Inr (?h1[d := Some (take (Suc j) (ys[j := x]) @ xs @ drop (Suc j + length xs) (ys[j := x]))])"
    using Cons.prems by (intro Cons.IH [OF b]) simp_all
  show ?case
    using Cons.prems ih
    by (simp add: bindE_Inr store_Some ptr_add_def take_Suc_update)
qed

lemma equal_loop_blocks:
  "block_of h a = Some xs \<Longrightarrow> block_of h b = Some ys \<Longrightarrow>
   i + n \<le> length xs \<Longrightarrow> j + n \<le> length ys \<Longrightarrow>
   equal_loop n (Some a, i) (Some b, j) h = Inr (take n (drop i xs) = take n (drop j ys))"
proof (induction n arbitrary: i j)
  case 0
  then show ?case by simp
next
  case (Suc n)
  have ih: "equal_loop n (Some a, Suc i) (Some b, Suc j) h =
      Inr (take n (drop (Suc i) xs) = take n (drop (Suc j) ys))"
    using Suc.prems by (intro Suc.IH) simp_all
  have t1: "take (Suc n) (drop i xs) = xs ! i # take n (drop (Suc i) xs)"
    using Suc.prems by (simp add: Cons_nth_drop_Suc [symmetric])
  have t2: "take (Suc n) (drop j ys) = ys ! j # take n (drop (Suc j) ys)"
    using Suc.prems by (simp add: Cons_nth_drop_Suc [symmetric])
  show ?case
    using Suc.prems ih by (simp add: bindE_Inr load_Some ptr_add_def t1 t2)
qed

lemma lexicographical_loop_blocks:
  "block_of h a = Some xs \<Longrightarrow> block_of h b = Some ys \<Longrightarrow>
   i + n1 \<le> length xs \<Longrightarrow> j + n2 \<le> length ys \<Longrightarrow>
   lexicographical_loop n1 n2 (Some a, i) (Some b, j) h =
     Inr (ord_class.lexordp (take n1 (drop i xs)) (take n2 (drop j ys)))"
proof (induction n1 arbitrary: i j n2)
  case 0
  then show ?case by (cases n2) (simp_all add: Cons_nth_drop_Suc [symmetric])
next
  case (Suc n1)
  have t1: "take (Suc n1) (drop i xs) = xs ! i # take n1 (drop (Suc i) xs)"
    using Suc.prems by (simp add: Cons_nth_drop_Suc [symmetric])
  show ?case
  proof (cases n2)
    case 0
    then show ?thesis by (simp add: t1)
  next
    case (Suc m)
    have ih: "lexicographical_loop n1 m (Some a, Suc i) (Some b, Suc j) h =
      Inr (ord_class.lexordp (take n1 (drop (Suc i) xs)) (take m (drop (Suc j) ys)))"
      using Suc.prems Suc by (intro Suc.IH) simp_all
    have t2: "take (Suc m) (drop j ys) = ys ! j # take m (drop (Suc j) ys)"
      using Suc.prems Suc by (simp add: Cons_nth_drop_Suc [symmetric])
    show ?thesis
      using Suc.prems Suc ih by (simp add: bindE_Inr load_Some ptr_add_def t1 t2)
  qed
qed

lemma lexicographical_loop_0: "lexicographical_loop n1 0 p q h = Inr False"
  by (cases n1) simp_all

section \<open>The invariant and the frame\<close>

text \<open>
  The two shapes of a vector that satisfies the invariant (no storage, or a live array of
  \<^verbatim>\<open>capacity_\<close> elements), and what a step that stays inside the vector's own array means
  for any other vector.
\<close>

lemma valid_cases:
  assumes "valid h v"
  obtains (null) "items_m v = None" "size_m v = 0" "capacity_m v = 0"
  | (array) a xs where "items_m v = Some a" "block_of h a = Some xs"
      "length xs = capacity_m v" "size_m v \<le> length xs"
  using assms by (cases "items_m v") (auto simp: valid_def owns_def buffer_def)

lemma valid_array:
  "block_of h a = Some xs \<Longrightarrow> items_m v = Some a \<Longrightarrow> capacity_m v = length xs \<Longrightarrow>
   size_m v \<le> length xs \<Longrightarrow> valid h v"
  by (simp add: valid_def owns_def buffer_def)

lemma valid_null: "items_m v = None \<Longrightarrow> capacity_m v = 0 \<Longrightarrow> size_m v = 0 \<Longrightarrow> valid h v"
  by (simp add: valid_def owns_def buffer_def)

lemma valid_default: "valid h SimpleVector_default"
  by (simp add: valid_null SimpleVector_default_def)

lemma valid_size_le: "valid h v \<Longrightarrow> size_m v \<le> capacity_m v"
  by (simp add: valid_def)

lemma elements_array:
  "block_of h a = Some xs \<Longrightarrow> items_m v = Some a \<Longrightarrow> elements h v = take (size_m v) xs"
  by (simp add: elements_def buffer_def)

lemma elements_empty: "size_m v = 0 \<Longrightarrow> elements h v = []"
  by (simp add: elements_def)

lemma length_elements: "valid h v \<Longrightarrow> length (elements h v) = size_m v"
  by (simp add: valid_def elements_def)

lemma nth_elements:
  "valid h v \<Longrightarrow> i < size_m v \<Longrightarrow> elements h v ! i = buffer h (items_m v) ! i"
  by (simp add: elements_def)

lemma frame_refl: "frame p h h"
  by (simp add: frame_def)

lemma frame_trans:
  "frame p h h1 \<Longrightarrow> frame q h1 h2 \<Longrightarrow> q = p \<or> fresh h q \<Longrightarrow> frame p h h2"
proof -
  assume 1: "frame p h h1" and 2: "frame q h1 h2" and 3: "q = p \<or> fresh h q"
  have "block_of h2 c = block_of h c" if c: "c < length h" "Some c \<noteq> p" for c
  proof -
    have "Some c \<noteq> q" using 3 c by (auto simp: fresh_def)
    moreover have "c < length h1" using 1 c by (simp add: frame_def)
    ultimately have "block_of h2 c = block_of h1 c" using 2 by (simp add: frame_def)
    then show ?thesis using 1 c by (simp add: frame_def)
  qed
  then show ?thesis using 1 2 by (simp add: frame_def)
qed

lemma frame_update: "frame (Some a) h (h[a := x])"
  by (simp add: frame_def block_of_update)

lemma frame_append: "frame p h (h @ [x])"
  by (simp add: frame_def block_of_append)

lemma frame_weaken: "frame None h h' \<Longrightarrow> frame p h h'"
  by (simp add: frame_def)

lemma frame_fresh: "frame p h h' \<Longrightarrow> fresh h' q \<Longrightarrow> fresh h q"
  by (auto simp: frame_def fresh_def split: option.splits)

lemma frame_other:
  assumes f: "frame p h h'" and w: "valid h w" and s: "items_m w = None \<or> items_m w \<noteq> p"
  shows "valid h' w \<and> buffer h' (items_m w) = buffer h (items_m w) \<and> elements h' w = elements h w"
  using w
proof (cases rule: valid_cases)
  case null
  then show ?thesis by (simp add: valid_null elements_empty buffer_def)
next
  case (array c xs)
  have "c < length h" using array by (simp add: block_of_SomeD)
  then have b: "block_of h' c = Some xs" using f s array by (simp add: frame_def)
  have "valid h' w" using array by (intro valid_array [OF b]) simp_all
  then show ?thesis
    using array b by (simp add: elements_array [OF b] elements_array [OF array(2)] buffer_def)
qed

lemma step_ok_refl: "valid h v \<Longrightarrow> step_ok h v h v"
  by (simp add: step_ok_def frame_refl)

lemma step_ok_trans:
  assumes 1: "step_ok h v h1 v1" and 2: "step_ok h1 v1 h2 v2"
  shows "step_ok h v h2 v2"
proof -
  have f: "frame (items_m v) h h2"
    using 1 2 by (auto simp: step_ok_def intro: frame_trans)
  have "items_m v2 = items_m v \<or> fresh h (items_m v2)"
    using 1 2 by (auto simp: step_ok_def intro: frame_fresh)
  then show ?thesis using f 2 by (simp add: step_ok_def)
qed

lemma step_ok_other:
  "step_ok h v h' v' \<Longrightarrow> valid h w \<Longrightarrow> items_m w = None \<or> items_m w \<noteq> items_m v \<Longrightarrow>
   valid h' w \<and> elements h' w = elements h w \<and> (items_m w = None \<or> items_m w \<noteq> items_m v')"
proof -
  assume s: "step_ok h v h' v'" and w: "valid h w" and d: "items_m w = None \<or> items_m w \<noteq> items_m v"
  have f: "frame (items_m v) h h'" using s by (simp add: step_ok_def)
  have "items_m w = None \<or> items_m w \<noteq> items_m v'"
  proof (cases "items_m w")
    case None
    then show ?thesis by simp
  next
    case (Some c)
    then have "c < length h" using w by (auto simp: valid_def owns_def block_of_def split: if_splits)
    then have "\<not> fresh h (items_m w)" using Some by (simp add: fresh_def)
    then show ?thesis using s d by (auto simp: step_ok_def)
  qed
  then show ?thesis using frame_other [OF f w d] by simp
qed

lemma ptr_add_begin: "ptr_add (begin_it v) i = (items_m v, i)"
  by (simp add: ptr_add_def begin_it_def ArrayPtr_Get_def)

lemma store_own:
  assumes v: "valid h v" and i: "i < capacity_m v"
  obtains a xs where "items_m v = Some a" "block_of h a = Some xs" "length xs = capacity_m v"
    "store (items_m v, i) x h = Inr (h[a := Some (xs[i := x])])"
  using v
proof (cases rule: valid_cases)
  case null
  then show ?thesis using i by simp
next
  case (array a xs)
  then show ?thesis using i that [of a xs] by (simp add: store_Some)
qed

lemma store_step:
  assumes v: "valid h v" and i: "i < capacity_m v" and n: "n \<le> capacity_m v"
  shows "\<exists>h'. store (items_m v, i) x h = Inr h' \<and> step_ok h v h' (v\<lparr>size_m := n\<rparr>)
     \<and> buffer h' (items_m v) = (buffer h (items_m v))[i := x]"
proof -
  obtain a xs where a: "items_m v = Some a" "block_of h a = Some xs" "length xs = capacity_m v"
    "store (items_m v, i) x h = Inr (h[a := Some (xs[i := x])])"
    using store_own [OF v i] by blast
  let ?h' = "h[a := Some (xs[i := x])]"
  have al: "a < length h" using a by (simp add: block_of_SomeD)
  have b: "block_of ?h' a = Some (xs[i := x])" using al by (simp add: block_of_update)
  have val: "valid ?h' (v\<lparr>size_m := n\<rparr>)"
    using a n by (intro valid_array [OF b]) simp_all
  have "buffer ?h' (items_m v) = (buffer h (items_m v))[i := x]"
    using a b by (simp add: buffer_def)
  then show ?thesis
    using a val by (simp add: step_ok_def frame_update)
qed

lemma load_own:
  assumes v: "valid h v" and i: "i < size_m v"
  shows "load (items_m v, i) h = Inr (elements h v ! i)"
  using v
proof (cases rule: valid_cases)
  case null
  then show ?thesis using i by simp
next
  case (array a xs)
  then show ?thesis
    using i by (simp add: load_Some elements_array [OF array(2) array(1)])
qed

lemma store_elements:
  assumes v: "valid h v" and i: "i < size_m v"
  shows "\<exists>h'. store (items_m v, i) x h = Inr h' \<and> step_ok h v h' v
     \<and> elements h' v = (elements h v)[i := x]"
proof -
  have c: "i < capacity_m v" using i valid_size_le [OF v] by simp
  from store_step [OF v c valid_size_le [OF v], of x]
  obtain h' where h': "store (items_m v, i) x h = Inr h'" "step_ok h v h' (v\<lparr>size_m := size_m v\<rparr>)"
    "buffer h' (items_m v) = (buffer h (items_m v))[i := x]"
    by blast
  have "elements h' v = (elements h v)[i := x]"
    using h'(3) by (simp add: elements_def take_update_swap)
  then show ?thesis using h' by simp
qed

lemma shrink_step:
  assumes v: "valid h v" and n: "n \<le> size_m v"
  shows "step_ok h v h (v\<lparr>size_m := n\<rparr>) \<and> elements h (v\<lparr>size_m := n\<rparr>) = take n (elements h v)"
  using v n by (simp add: step_ok_def frame_refl valid_def elements_def min_def)

lemma fill_step:
  assumes v: "valid h v" and s: "size_m v \<le> n" and n: "n \<le> capacity_m v"
  shows "\<exists>h'. std_fill (end_it v) (ptr_sub (ptr_add (end_it v) n) (size_m v)) x h = Inr h'
     \<and> step_ok h v h' (v\<lparr>size_m := n\<rparr>)
     \<and> elements h' (v\<lparr>size_m := n\<rparr>) = elements h v @ replicate (n - size_m v) x"
  using v
proof (cases rule: valid_cases)
  case null
  then have "n = 0" using n by simp
  then show ?thesis
    using null shrink_step [OF v, of 0]
    by (simp add: std_fill_def distance_def ptr_le_def end_it_def begin_it_def ArrayPtr_Get_def
        ptr_add_def ptr_sub_def bindE_Inr elements_empty)
next
  case (array a xs)
  define k where "k = n - size_m v"
  have k: "size_m v + k = n" using s by (simp add: k_def)
  define ys where "ys = take (size_m v) xs @ replicate k x @ drop (size_m v + k) xs"
  have len: "length ys = length xs" using array k n by (auto simp: ys_def min_def)
  let ?h' = "h[a := Some ys]"
  let ?v' = "v\<lparr>size_m := n\<rparr>"
  have al: "a < length h" using array by (simp add: block_of_SomeD)
  have fl: "fill_loop k (Some a, size_m v) x h = Inr ?h'"
    unfolding ys_def using array k n by (intro fill_loop_block [OF array(2)]) simp
  have r: "std_fill (end_it v) (ptr_sub (ptr_add (end_it v) n) (size_m v)) x h = Inr ?h'"
    using array(1) fl s
    by (simp add: std_fill_def distance_def ptr_le_def end_it_def begin_it_def ArrayPtr_Get_def
        ptr_add_def ptr_sub_def bindE_Inr k_def)
  have b: "block_of ?h' a = Some ys" using al by (simp add: block_of_update)
  have val: "valid ?h' ?v'"
    using array n by (intro valid_array [OF b]) (simp_all add: len)
  have "elements ?h' ?v' = take (size_m ?v') ys"
    by (rule elements_array [OF b]) (simp add: array)
  also have "\<dots> = take (size_m v) xs @ replicate k x"
    using array k by (auto simp: ys_def min_def)
  finally have el: "elements ?h' ?v' = elements h v @ replicate (n - size_m v) x"
    by (simp add: elements_array [OF array(2) array(1)] k_def)
  have ok: "step_ok h v ?h' ?v'"
    using val array by (simp add: step_ok_def frame_update)
  show ?thesis using r ok el by simp
qed

section \<open>Capacity: Reallocate, Reserve, Resize, Clear\<close>

lemma Reallocate_spec:
  assumes v: "valid h v" and n: "size_m v \<le> n"
  shows "\<exists>v' h'. Reallocate junk n v h = Inr (v', h') \<and> step_ok h v h' v'
     \<and> size_m v' = size_m v \<and> capacity_m v' = n \<and> elements h' v' = elements h v"
proof (cases "n = 0")
  case True
  then have s: "size_m v = 0" using n by simp
  show ?thesis
    using v True s
    by (cases rule: valid_cases [OF v])
       (auto simp: Reallocate_def ArrayPtr_def ArrayPtr_Get_def ptr_add_def std_move_def distance_def ptr_le_def
          bindE_Inr ArrayPtr_destroy_def step_ok_def valid_null elements_empty frame_refl frame_update fresh_def)
next
  case False
  let ?h1 = "h @ [Some (replicate n junk)]"
  have new: "block_of ?h1 (length h) = Some (replicate n junk)"
    by (simp add: block_of_append)
  from v show ?thesis
  proof (cases rule: valid_cases)
    case null
    then show ?thesis
      using False new
      by (auto simp: Reallocate_def ArrayPtr_def ArrayPtr_Get_def ptr_add_def std_move_def distance_def ptr_le_def
          bindE_Inr ArrayPtr_destroy_def step_ok_def elements_empty frame_append fresh_def
          intro!: valid_array [OF new])
  next
    case (array a xs)
    have a: "a < length h" using array by (simp add: block_of_SomeD)
    have old: "block_of ?h1 a = Some xs" using array a by (simp add: block_of_append)
    let ?ys = "take (size_m v) xs @ drop (size_m v) (replicate n junk)"
    let ?h2 = "?h1[length h := Some ?ys]"
    have mv: "move_loop (size_m v) (Some a, 0) (Some (length h), 0) ?h1 = Inr ((Some (length h), 0 + size_m v), 
       ?h1[length h := Some (take 0 (replicate n junk) @ take (size_m v) (drop 0 xs) @ drop (0 + size_m v) (replicate n junk))])"
      using a array n by (intro move_loop_other [OF old new]) simp_all
    let ?h3 = "?h2[a := None]"
    have b3: "block_of ?h3 (length h) = Some ?ys"
      using a by (simp add: block_of_update block_of_append)
    have r: "Reallocate junk n v h = Inr (v\<lparr>items_m := Some (length h), capacity_m := n\<rparr>, ?h3)"
      using False array mv
      by (simp add: Reallocate_def ArrayPtr_def ArrayPtr_Get_def ptr_add_def std_move_def distance_def ptr_le_def
          bindE_Inr ArrayPtr_destroy_def)
    have f: "frame (Some a) h ?h3"
      using a by (simp add: frame_def block_of_update block_of_append)
    let ?v' = "v\<lparr>items_m := Some (length h), capacity_m := n\<rparr>"
    have val: "valid ?h3 ?v'"
      using n array by (intro valid_array [OF b3]) simp_all
    have "elements ?h3 ?v' = take (size_m ?v') ?ys"
      by (rule elements_array [OF b3]) simp
    then have el: "elements ?h3 ?v' = elements h v"
      using array n by (simp add: elements_array [OF array(2)])
    show ?thesis
      using r val el f array by (simp add: step_ok_def fresh_def)
  qed
qed

lemma Reserve_spec:
  assumes v: "valid h v"
  shows "\<exists>v' h'. Reserve junk n v h = Inr (v', h') \<and> step_ok h v h' v'
     \<and> size_m v' = size_m v \<and> capacity_m v' = max n (capacity_m v)
     \<and> elements h' v' = elements h v"
proof (cases "capacity_m v < n")
  case True
  then have "size_m v \<le> n" using valid_size_le [OF v] by simp
  from Reallocate_spec [OF v this, where junk=junk] True show ?thesis
    by (auto simp: Reserve_def max_def)
next
  case False
  then show ?thesis using v by (simp add: Reserve_def step_ok_refl max_def)
qed

lemma Resize_spec:
  assumes v: "valid h v"
  shows "\<exists>v' h'. Resize dflt junk n v h = Inr (v', h') \<and> step_ok h v h' v'
     \<and> size_m v' = n
     \<and> capacity_m v' = (if capacity_m v < n then max n (capacity_m v * 2) else capacity_m v)
     \<and> elements h' v' = take n (elements h v) @ replicate (n - size_m v) dflt"
proof -
  obtain v1 h1 where 1:
    "(if n > capacity_m v then (let new_capacity = max n (capacity_m v * 2) in
        Reallocate junk new_capacity v h) else Inr (v, h)) = Inr (v1, h1)"
    "step_ok h v h1 v1" "size_m v1 = size_m v"
    "capacity_m v1 = (if capacity_m v < n then max n (capacity_m v * 2) else capacity_m v)"
    "elements h1 v1 = elements h v"
  proof (cases "capacity_m v < n")
    case True
    then have "size_m v \<le> max n (capacity_m v * 2)" using valid_size_le [OF v] by simp
    from Reallocate_spec [OF v this, where junk=junk] True that show ?thesis by auto
  next
    case False
    then show ?thesis using that [of v h] v by (simp add: step_ok_refl)
  qed
  have v1: "valid h1 v1" using 1 by (simp add: step_ok_def)
  have cap: "n \<le> capacity_m v1" using 1(4) by (simp split: if_splits)
  show ?thesis
  proof (cases "n > size_m v1")
    case True
    then have "size_m v1 \<le> n" by simp
    from fill_step [OF v1 this cap, where x=dflt]
    obtain h2 where 2: "std_fill (end_it v1) (ptr_sub (ptr_add (end_it v1) n) (size_m v1)) dflt h1 = Inr h2"
      "step_ok h1 v1 h2 (v1\<lparr>size_m := n\<rparr>)"
      "elements h2 (v1\<lparr>size_m := n\<rparr>) = elements h1 v1 @ replicate (n - size_m v1) dflt"
      by blast
    have r: "Resize dflt junk n v h = Inr (v1\<lparr>size_m := n\<rparr>, h2)"
      unfolding Resize_def using 1(1) 2(1) True by (simp add: bindE_Inr)
    have "take n (elements h v) = elements h v"
      using True 1(3) length_elements [OF v] by simp
    then show ?thesis
      using r step_ok_trans [OF 1(2) 2(2)] 2(3) 1 by simp
  next
    case False
    then have le: "n \<le> size_m v1" by simp
    have r: "Resize dflt junk n v h = Inr (v1\<lparr>size_m := n\<rparr>, h1)"
      unfolding Resize_def using 1(1) False by (simp add: bindE_Inr)
    from shrink_step [OF v1 le] show ?thesis
      using r step_ok_trans [OF 1(2)] 1 le by auto
  qed
qed

lemma Clear_spec:
  assumes v: "valid h v"
  shows "step_ok h v h (Clear v) \<and> elements h (Clear v) = [] \<and> size_m (Clear v) = 0
     \<and> capacity_m (Clear v) = capacity_m v"
  using shrink_step [OF v, of 0] by (simp add: Clear_def)

section \<open>The constructors\<close>

lemma SimpleVector_size_0:
  "SimpleVector_size dflt junk 0 h = Inr (SimpleVector_default, h)"
  by (simp add: SimpleVector_size_def ArrayPtr_def std_fill_def distance_def ptr_le_def
      begin_it_def end_it_def ArrayPtr_Get_def ptr_add_def bindE_Inr SimpleVector_default_def)

lemma SimpleVector_fill_eq:
  "0 < n \<Longrightarrow> SimpleVector_fill junk n x h =
     Inr (\<lparr>items_m = Some (length h), size_m = n, capacity_m = n\<rparr>, h @ [Some (replicate n x)])"
proof -
  assume n: "0 < n"
  let ?h1 = "h @ [Some (replicate n junk)]"
  have new: "block_of ?h1 (length h) = Some (replicate n junk)"
    by (simp add: block_of_append)
  have "fill_loop n (Some (length h), 0) x ?h1 =
     Inr (?h1[length h := Some (take 0 (replicate n junk) @ replicate n x @ drop (0 + n) (replicate n junk))])"
    by (intro fill_loop_block [OF new]) simp
  then show ?thesis
    using n
    by (simp add: SimpleVector_fill_def ArrayPtr_def std_fill_def distance_def ptr_le_def
      begin_it_def end_it_def ArrayPtr_Get_def ptr_add_def bindE_Inr)
qed

lemma SimpleVector_size_eq:
  "0 < n \<Longrightarrow> SimpleVector_size dflt junk n h =
     Inr (\<lparr>items_m = Some (length h), size_m = n, capacity_m = n\<rparr>, h @ [Some (replicate n dflt)])"
  using SimpleVector_fill_eq [of n junk dflt h]
  by (simp add: SimpleVector_fill_def SimpleVector_size_def)

lemma SimpleVector_fill_spec:
  "\<exists>v h'. SimpleVector_fill junk n x h = Inr (v, h') \<and> valid h' v \<and> fresh h (items_m v)
     \<and> frame None h h' \<and> size_m v = n \<and> capacity_m v = n \<and> elements h' v = replicate n x"
proof (cases "n = 0")
  case True
  then show ?thesis
    using SimpleVector_size_0 [of x junk h]
    by (simp add: SimpleVector_fill_def SimpleVector_size_def valid_null fresh_def
        SimpleVector_default_def frame_refl elements_empty)
next
  case False
  let ?v = "\<lparr>items_m = Some (length h), size_m = n, capacity_m = n\<rparr>"
  let ?h' = "h @ [Some (replicate n x)]"
  have r: "SimpleVector_fill junk n x h = Inr (?v, ?h')"
    using False by (simp add: SimpleVector_fill_eq)
  have b: "block_of ?h' (length h) = Some (replicate n x)" by (simp add: block_of_append)
  have val: "valid ?h' ?v" by (intro valid_array [OF b]) simp_all
  have el: "elements ?h' ?v = replicate n x"
    using elements_array [OF b, of ?v] by simp
  show ?thesis using r val el by (simp add: fresh_def frame_append)
qed

lemma SimpleVector_size_spec:
  "\<exists>v h'. SimpleVector_size dflt junk n h = Inr (v, h') \<and> valid h' v \<and> fresh h (items_m v)
     \<and> frame None h h' \<and> size_m v = n \<and> capacity_m v = n \<and> elements h' v = replicate n dflt"
  using SimpleVector_fill_spec [of junk n dflt h]
  by (simp add: SimpleVector_fill_def SimpleVector_size_def)

lemma SimpleVector_init_spec:
  "\<exists>v h'. SimpleVector_init dflt junk xs h = Inr (v, h') \<and> valid h' v \<and> fresh h (items_m v)
     \<and> frame None h h' \<and> size_m v = length xs \<and> capacity_m v = length xs
     \<and> elements h' v = xs"
proof (cases "xs = []")
  case True
  then show ?thesis
    by (simp add: SimpleVector_init_def Assign_list_def SimpleVector_size_0 bindE_Inr swap_def
        destroy_def ArrayPtr_destroy_def SimpleVector_default_def valid_null fresh_def frame_refl
        elements_empty)
next
  case False
  define n where "n = length xs"
  have n: "0 < n" using False by (simp add: n_def)
  let ?L = "length h"
  let ?h1 = "h @ [Some (replicate n dflt)]"
  let ?b = "\<lparr>items_m = Some ?L, size_m = n, capacity_m = n\<rparr>"
  let ?h2 = "h @ [Some xs]"
  have new: "block_of ?h1 ?L = Some (replicate n dflt)" by (simp add: block_of_append)
  have "move_list xs (Some ?L, 0) ?h1 =
      Inr (?h1[?L := Some (take 0 (replicate n dflt) @ xs @ drop (0 + length xs) (replicate n dflt))])"
    by (intro move_list_block [OF new]) (simp add: n_def)
  then have mv: "move_list xs (Some ?L, 0) ?h1 = Inr ?h2"
    by (simp add: n_def)
  have r: "SimpleVector_init dflt junk xs h = Inr (?b, ?h2)"
    using mv SimpleVector_size_eq [OF n, of dflt junk h]
    by (simp add: SimpleVector_init_def Assign_list_def bindE_Inr begin_it_def ArrayPtr_Get_def swap_def
        destroy_def ArrayPtr_destroy_def SimpleVector_default_def n_def [symmetric])
  have b: "block_of ?h2 ?L = Some xs" by (simp add: block_of_append)
  have val: "valid ?h2 ?b" by (intro valid_array [OF b]) (simp_all add: n_def)
  have el: "elements ?h2 ?b = xs"
    using elements_array [OF b, of ?b] by (simp add: n_def)
  show ?thesis using r val el by (simp add: fresh_def frame_append n_def)
qed

lemma SimpleVector_reserve_spec:
  "\<exists>v h'. SimpleVector_reserve junk (Reserve_proxy n) h = Inr (v, h') \<and> valid h' v
     \<and> size_m v = 0 \<and> capacity_m v = n \<and> elements h' v = []"
  using Reserve_spec [OF valid_default, where h=h and junk=junk and n=n]
  by (auto simp: SimpleVector_reserve_def step_ok_def SimpleVector_default_def elements_empty
      GetCapacityToReserve_def Reserve_proxy_def)

lemma SimpleVector_copy_spec:
  assumes a: "valid h a"
  shows "\<exists>b h'. SimpleVector_copy dflt junk a h = Inr (b, h') \<and> valid h' b \<and> fresh h (items_m b)
     \<and> frame None h h' \<and> size_m b = size_m a \<and> capacity_m b = size_m a
     \<and> elements h' b = elements h a"
proof (cases "size_m a = 0")
  case True
  then show ?thesis
    by (simp add: SimpleVector_copy_def Assign_def SimpleVector_size_0 bindE_Inr std_move_def
        distance_def ptr_le_def begin_it_def end_it_def ArrayPtr_Get_def ptr_add_def swap_def
        destroy_def ArrayPtr_destroy_def SimpleVector_default_def valid_null fresh_def frame_refl
        elements_empty)
next
  case False
  define n where "n = size_m a"
  have n: "0 < n" using False by (simp add: n_def)
  from a False obtain x xs where x: "items_m a = Some x" "block_of h x = Some xs" "n \<le> length xs"
    unfolding n_def by (cases rule: valid_cases) auto
  let ?L = "length h"
  let ?h1 = "h @ [Some (replicate n dflt)]"
  let ?b = "\<lparr>items_m = Some ?L, size_m = n, capacity_m = n\<rparr>"
  let ?h2 = "h @ [Some (take n xs)]"
  have xl: "x \<noteq> ?L" using x by (auto dest: block_of_SomeD)
  have old: "block_of ?h1 x = Some xs" using x xl by (simp add: block_of_append)
  have new: "block_of ?h1 ?L = Some (replicate n dflt)" by (simp add: block_of_append)
  have "move_loop n (Some x, 0) (Some ?L, 0) ?h1 = Inr ((Some ?L, 0 + n),
      ?h1[?L := Some (take 0 (replicate n dflt) @ take n (drop 0 xs) @ drop (0 + n) (replicate n dflt))])"
    using x by (intro move_loop_other [OF old new xl]) simp_all
  then have mv: "move_loop n (Some x, 0) (Some ?L, 0) ?h1 = Inr ((Some ?L, n), ?h2)"
    by simp
  have r: "SimpleVector_copy dflt junk a h = Inr (?b, ?h2)"
    using x(1) mv SimpleVector_size_eq [OF n, of dflt junk h]
    by (simp add: SimpleVector_copy_def Assign_def bindE_Inr std_move_def
        distance_def ptr_le_def begin_it_def end_it_def ArrayPtr_Get_def ptr_add_def swap_def
        destroy_def ArrayPtr_destroy_def SimpleVector_default_def n_def [symmetric])
  have b: "block_of ?h2 ?L = Some (take n xs)" by (simp add: block_of_append)
  have val: "valid ?h2 ?b" using x by (intro valid_array [OF b]) simp_all
  have el: "elements ?h2 ?b = elements h a"
    using elements_array [OF b, of ?b] elements_array [OF x(2) x(1)] by (simp add: n_def)
  show ?thesis using r val el by (simp add: fresh_def frame_append n_def)
qed

lemma SimpleVector_move_spec:
  assumes a: "valid h a"
  shows "valid h (fst (SimpleVector_move a)) \<and> valid h (snd (SimpleVector_move a))
     \<and> fst (SimpleVector_move a) = a
     \<and> size_m (snd (SimpleVector_move a)) = 0 \<and> capacity_m (snd (SimpleVector_move a)) = 0"
  using a by (cases a) (simp add: SimpleVector_move_def ArrayPtr_move_assign_def valid_def owns_def buffer_def)

section \<open>Adding, removing and reading elements\<close>

lemma PushBack_spec:
  assumes v: "valid h v"
  shows "\<exists>v' h'. PushBack junk x v h = Inr (v', h') \<and> step_ok h v h' v'
     \<and> size_m v' = size_m v + 1
     \<and> capacity_m v' = (if capacity_m v = 0 then 1
                        else if size_m v = capacity_m v then capacity_m v * 2 else capacity_m v)
     \<and> elements h' v' = elements h v @ [x]"
proof -
  obtain v1 h1 where 1:
    "(if capacity_m v = 0 then Reallocate junk 1 v h else Inr (v, h)) = Inr (v1, h1)"
    "step_ok h v h1 v1" "size_m v1 = size_m v"
    "capacity_m v1 = (if capacity_m v = 0 then 1 else capacity_m v)"
    "elements h1 v1 = elements h v"
  proof (cases "capacity_m v = 0")
    case True
    then have "size_m v \<le> 1" using v by (simp add: valid_def)
    from Reallocate_spec [OF v this, of junk] True that show ?thesis by auto
  next
    case False
    then show ?thesis using that [of v h] v by (simp add: step_ok_refl)
  qed
  have v1: "valid h1 v1" using 1 by (simp add: step_ok_def)
  obtain v2 h2 where 2:
    "(if size_m v1 = capacity_m v1 then Reallocate junk (capacity_m v1 * 2) v1 h1 else Inr (v1, h1))
       = Inr (v2, h2)"
    "step_ok h1 v1 h2 v2" "size_m v2 = size_m v1"
    "capacity_m v2 = (if size_m v1 = capacity_m v1 then capacity_m v1 * 2 else capacity_m v1)"
    "elements h2 v2 = elements h1 v1"
  proof (cases "size_m v1 = capacity_m v1")
    case True
    then have "size_m v1 \<le> capacity_m v1 * 2" by simp
    from Reallocate_spec [OF v1 this, of junk] True that show ?thesis by auto
  next
    case False
    then show ?thesis using that [of v1 h1] v1 by (simp add: step_ok_refl)
  qed
  have v2: "valid h2 v2" using 2 by (simp add: step_ok_def)
  have lt: "size_m v2 < capacity_m v2"
    using 1 2 v1 by (auto simp: valid_def split: if_splits)
  obtain h3 where 3: "store (items_m v2, size_m v2) x h2 = Inr h3"
    "step_ok h2 v2 h3 (v2\<lparr>size_m := size_m v2 + 1\<rparr>)"
    "buffer h3 (items_m v2) = (buffer h2 (items_m v2))[size_m v2 := x]"
    using store_step [OF v2 lt, of "size_m v2 + 1" x] lt by auto
  let ?v' = "v2\<lparr>size_m := size_m v2 + 1\<rparr>"
  have r: "PushBack junk x v h = Inr (?v', h3)"
    using 1(1) 2(1) 3(1) unfolding PushBack_def by (simp add: bindE_Inr ArrayPtr_index_def)
  have ok: "step_ok h v h3 ?v'"
    using step_ok_trans [OF step_ok_trans [OF 1(2) 2(2)] 3(2)] .
  have el: "elements h3 ?v' = elements h v @ [x]"
    using 3(3) lt v2 1(5) 2(5) 
    by (simp add: elements_def valid_def take_Suc_conv_app_nth)
  have cap: "capacity_m ?v' = (if capacity_m v = 0 then 1
                        else if size_m v = capacity_m v then capacity_m v * 2 else capacity_m v)"
    using 1 2 v by (auto simp: valid_def)
  show ?thesis using r ok el cap 1(3) 2(3) by simp
qed

lemma Insert_fits:
  assumes v: "valid h v" and i: "i \<le> size_m v" and c: "size_m v < capacity_m v"
  shows "\<exists>v' h'. Insert dflt junk (ptr_add (begin_it v) i) x v h = Inr (ptr_add (begin_it v') i, v', h')
     \<and> step_ok h v h' v' \<and> items_m v' = items_m v
     \<and> size_m v' = size_m v + 1 \<and> capacity_m v' = capacity_m v
     \<and> elements h' v' = take i (elements h v) @ x # drop i (elements h v)"
  using v
proof (cases rule: valid_cases)
  case null
  then show ?thesis using c by simp
next
  case (array a xs)
  let ?n = "size_m v - i"
  let ?ys = "take (Suc i) xs @ take ?n (drop i xs) @ drop (Suc i + ?n) xs"
  let ?h1 = "h[a := Some ?ys]"
  let ?h2 = "?h1[a := Some (?ys[i := x])]"
  let ?v' = "v\<lparr>size_m := size_m v + 1\<rparr>"
  have al: "a < length h" using array by (simp add: block_of_SomeD)
  have "move_backward_loop ?n (Some a, i + ?n) (Some a, Suc i + ?n) h = Inr ?h1"
    using array i c by (intro move_backward_loop_right [OF array(2)]) simp_all
  then have mv: "move_backward_loop ?n (Some a, size_m v) (Some a, Suc (size_m v)) h = Inr ?h1"
    using i by simp
  have b1: "block_of ?h1 a = Some ?ys" using al by (simp add: block_of_update)
  have st: "store (Some a, i) x ?h1 = Inr ?h2"
    using array i c by (intro store_Some [OF b1]) simp
  have r: "Insert dflt junk (ptr_add (begin_it v) i) x v h = Inr (ptr_add (begin_it ?v') i, ?v', ?h2)"
    using array i c mv st
    by (simp add: Insert_def cbegin_def cend_def begin_it_def end_it_def ArrayPtr_Get_def ptr_add_def
        ptr_le_def std_move_backward_def distance_def bindE_Inr Let_def)
  have b2: "block_of ?h2 a = Some (?ys[i := x])" using al by (simp add: block_of_update)
  have val: "valid ?h2 ?v'"
    using array i c by (intro valid_array [OF b2]) simp_all
  have "elements ?h2 ?v' = take (size_m ?v') (?ys[i := x])"
    by (rule elements_array [OF b2]) (simp add: array)
  also have "\<dots> = take i xs @ x # take ?n (drop i xs)"
    using array i c by (auto simp add: list_update_append take_Suc_conv_app_nth min_def Suc_diff_le)
  also have "\<dots> = take i (elements h v) @ x # drop i (elements h v)"
    using array i by (simp add: elements_array [OF array(2) array(1)] drop_take)
  finally have el: "elements ?h2 ?v' = take i (elements h v) @ x # drop i (elements h v)" .
  have ok: "step_ok h v ?h2 ?v'"
    using val array by (simp add: step_ok_def frame_update)
  show ?thesis using r ok el by simp
qed

lemma Insert_grows:
  assumes v: "valid h v" and i: "i \<le> size_m v" and c: "size_m v = capacity_m v"
  shows "\<exists>v' h'. Insert dflt junk (ptr_add (begin_it v) i) x v h = Inr (ptr_add (begin_it v') i, v', h')
     \<and> step_ok h v h' v' \<and> fresh h (items_m v') 
     \<and> size_m v' = size_m v + 1 \<and> capacity_m v' = (if size_m v = 0 then 1 else capacity_m v * 2)
     \<and> elements h' v' = take i (elements h v) @ x # drop i (elements h v)"
proof -
  define nc where "nc = (if size_m v = 0 then 1 else capacity_m v * 2)"
  let ?L = "length h"
  let ?zs = "replicate nc dflt"
  let ?h1 = "h @ [Some ?zs]"
  let ?tmp = "\<lparr>items_m = Some ?L, size_m = nc, capacity_m = nc\<rparr>"
  let ?v' = "\<lparr>items_m = Some ?L, size_m = size_m v + 1, capacity_m = nc\<rparr>"
  have nc: "0 < nc" "size_m v < nc"
  proof -
    show "0 < nc" using c by (cases "size_m v = 0") (simp_all add: nc_def)
    show "size_m v < nc" using c by (cases "size_m v = 0") (simp_all add: nc_def)
  qed
  have nlt: "\<not> size_m v < capacity_m v" using c by simp
  have ncI: "(if size_m v = 0 then 1 else capacity_m v * 2) = nc" by (simp add: nc_def)
  have tmp: "SimpleVector_size dflt junk nc h = Inr (?tmp, ?h1)"
    by (rule SimpleVector_size_eq [OF nc(1)])
  have new: "block_of ?h1 ?L = Some ?zs" by (simp add: block_of_append)
  from v show ?thesis
  proof (cases rule: valid_cases)
    case null
    then have i0: "i = 0" using i by simp
    have n1: "nc = Suc 0" using null by (simp add: nc_def)
    let ?h3 = "?h1[?L := Some (?zs[0 := x])]"
    have st: "store (Some ?L, 0) x ?h1 = Inr ?h3"
      using nc(1) by (intro store_Some [OF new]) simp
    have r: "Insert dflt junk (ptr_add (begin_it v) i) x v h = Inr (ptr_add (begin_it ?v') i, ?v', ?h3)"
      unfolding Insert_def Let_def ncI
      using null i0 tmp st
      by (simp add: cbegin_def cend_def begin_it_def end_it_def ArrayPtr_Get_def ptr_add_def
        ptr_le_def std_move_def distance_def bindE_Inr swap_def destroy_def ArrayPtr_destroy_def)
    have b3: "block_of ?h3 ?L = Some (?zs[0 := x])" by (simp add: block_of_update block_of_append)
    have val: "valid ?h3 ?v'"
      using null n1 by (intro valid_array [OF b3]) simp_all
    have "elements ?h3 ?v' = take (size_m ?v') (?zs[0 := x])"
      by (rule elements_array [OF b3]) simp
    then have el: "elements ?h3 ?v' = take i (elements h v) @ x # drop i (elements h v)"
      using null i0 n1 by (simp add: elements_empty)
    have fr: "frame (items_m v) h ?h3"
      by (simp add: frame_def block_of_update block_of_append)
    have ok: "step_ok h v ?h3 ?v'"
      using val fr by (simp add: step_ok_def fresh_def)
    show ?thesis using r ok el null by (simp add: fresh_def nc_def)
  next
    case (array a xs)
    have al: "a < ?L" using array by (simp add: block_of_SomeD)
    have aL: "a \<noteq> ?L" using al by simp
    have old: "block_of ?h1 a = Some xs" using array al by (simp add: block_of_append)
    have ixs: "i \<le> length xs" "size_m v = length xs" using array i c by simp_all
    define n where "n = size_m v - i"
    have n: "i + n = size_m v" using i by (simp add: n_def)
    define ys2 where "ys2 = take 0 ?zs @ take i (drop 0 xs) @ drop (0 + i) ?zs"
    have len2: "length ys2 = nc" using ixs nc i by (auto simp add: ys2_def min_def)
    have m1: "move_loop i (Some a, 0) (Some ?L, 0) ?h1 = Inr ((Some ?L, 0 + i), ?h1[?L := Some ys2])"
      unfolding ys2_def using array i nc by (intro move_loop_other [OF old new aL]) simp_all
    let ?h2 = "h @ [Some ys2]"
    have m1': "move_loop i (Some a, 0) (Some ?L, 0) ?h1 = Inr ((Some ?L, i), ?h2)"
      using m1 by simp
    have b2: "block_of ?h2 ?L = Some ys2" by (simp add: block_of_append)
    define ys3 where "ys3 = ys2[i := x]"
    have len3: "length ys3 = nc" by (simp add: ys3_def len2)
    let ?h3 = "h @ [Some ys3]"
    have "store (Some ?L, i) x ?h2 = Inr (?h2[?L := Some (ys2[i := x])])"
      using i nc by (intro store_Some [OF b2]) (simp add: len2)
    then have st: "store (Some ?L, i) x ?h2 = Inr ?h3"
      by (simp add: ys3_def)
    have b3: "block_of ?h3 ?L = Some ys3" by (simp add: block_of_append)
    have old3: "block_of ?h3 a = Some xs" using array aL by (simp add: block_of_append)
    define ys4 where "ys4 = take (Suc i) ys3 @ take n (drop i xs) @ drop (Suc i + n) ys3"
    have len4: "length ys4 = nc" using ixs nc n by (auto simp add: ys4_def len3 min_def)
    let ?h4 = "h @ [Some ys4]"
    have "move_loop n (Some a, i) (Some ?L, Suc i) ?h3 = Inr ((Some ?L, Suc i + n), ?h3[?L := Some ys4])"
      unfolding ys4_def using ixs n nc by (intro move_loop_other [OF old3 b3 aL]) (simp_all add: len3)
    then have m2: "move_loop (size_m v - i) (Some a, i) (Some ?L, Suc i) ?h3 = Inr ((Some ?L, Suc (size_m v)), ?h4)"
      using n by (simp add: n_def)
    let ?h5 = "?h4[a := None]"
    have r: "Insert dflt junk (ptr_add (begin_it v) i) x v h = Inr (ptr_add (begin_it ?v') i, ?v', ?h5)"
      unfolding Insert_def Let_def ncI
      using array(1) i nlt tmp m1' st m2
      by (simp add: cbegin_def cend_def begin_it_def end_it_def ArrayPtr_Get_def ptr_add_def
        ptr_le_def std_move_def distance_def bindE_Inr swap_def destroy_def ArrayPtr_destroy_def)
    have b5: "block_of ?h5 ?L = Some ys4"
      using aL by (simp add: block_of_update block_of_append)
    have val: "valid ?h5 ?v'"
      using nc by (intro valid_array [OF b5]) (simp_all add: len4)
    have "elements ?h5 ?v' = take (size_m ?v') ys4"
      by (rule elements_array [OF b5]) simp
    also have "\<dots> = take i xs @ x # take n (drop i xs)"
      using ixs nc n len2
      by (simp add: ys4_def ys3_def ys2_def take_Suc_conv_app_nth list_update_append nth_append Suc_diff_le)
    also have "\<dots> = take i (elements h v) @ x # drop i (elements h v)"
      using ixs n by (simp add: elements_array [OF array(2) array(1)])
    finally have el: "elements ?h5 ?v' = take i (elements h v) @ x # drop i (elements h v)" .
    have fr: "frame (items_m v) h ?h5"
      using array by (simp add: frame_def block_of_update block_of_append)
    have ok: "step_ok h v ?h5 ?v'"
      using val fr by (simp add: step_ok_def fresh_def)
    show ?thesis using r ok el by (simp add: fresh_def nc_def)
  qed
qed

lemma Insert_spec:
  assumes v: "valid h v" and i: "i \<le> size_m v"
  shows "\<exists>v' h'. Insert dflt junk (ptr_add (begin_it v) i) x v h = Inr (ptr_add (begin_it v') i, v', h')
     \<and> step_ok h v h' v'
     \<and> size_m v' = size_m v + 1
     \<and> capacity_m v' = (if size_m v < capacity_m v then capacity_m v
          else if size_m v = 0 then 1 else capacity_m v * 2)
     \<and> elements h' v' = take i (elements h v) @ x # drop i (elements h v)"
proof (cases "size_m v < capacity_m v")
  case True
  from Insert_fits [OF v i True, where dflt=dflt and junk=junk and x=x] True show ?thesis by auto
next
  case False
  then have c: "size_m v = capacity_m v" using v by (simp add: valid_def)
  from Insert_grows [OF v i c, where dflt=dflt and junk=junk and x=x] False show ?thesis by auto
qed

lemma PopBack_spec:
  assumes v: "valid h v" and n: "size_m v \<noteq> 0"
  shows "PopBack v = Inr (v\<lparr>size_m := size_m v - 1\<rparr>)
     \<and> step_ok h v h (v\<lparr>size_m := size_m v - 1\<rparr>)
     \<and> elements h (v\<lparr>size_m := size_m v - 1\<rparr>) = butlast (elements h v)"
  using n shrink_step [OF v, of "size_m v - 1"] length_elements [OF v]
  by (simp add: PopBack_def IsEmpty_def butlast_conv_take)

lemma Erase_spec:
  assumes v: "valid h v" and i: "i < size_m v"
  shows "\<exists>v' h'. Erase (ptr_add (begin_it v) i) v h = Inr (ptr_add (begin_it v) i, v', h')
     \<and> step_ok h v h' v' \<and> items_m v' = items_m v
     \<and> size_m v' = size_m v - 1 \<and> capacity_m v' = capacity_m v
     \<and> elements h' v' = take i (elements h v) @ drop (Suc i) (elements h v)"
  using v
proof (cases rule: valid_cases)
  case null
  then show ?thesis using i by simp
next
  case (array a xs)
  let ?n = "size_m v - Suc i"
  let ?ys = "take i xs @ take ?n (drop (Suc i) xs) @ drop (i + ?n) xs"
  let ?h' = "h[a := Some ?ys]"
  let ?v' = "v\<lparr>size_m := size_m v - 1\<rparr>"
  have al: "a < length h" using array by (simp add: block_of_SomeD)
  have mv: "move_loop ?n (Some a, Suc i) (Some a, i) h = Inr ((Some a, i + ?n), ?h')"
    using array i by (intro move_loop_left [OF array(2)]) simp_all
  have r: "Erase (ptr_add (begin_it v) i) v h = Inr (ptr_add (begin_it v) i, ?v', ?h')"
    using array i mv
    by (simp add: Erase_def cbegin_def cend_def begin_it_def end_it_def ArrayPtr_Get_def ptr_add_def
        ptr_le_def ptr_less_def std_move_def distance_def bindE_Inr)
  have b: "block_of ?h' a = Some ?ys" using al by (simp add: block_of_update)
  have val: "valid ?h' ?v'"
    using array i by (intro valid_array [OF b]) simp_all
  have "elements ?h' ?v' = take (size_m ?v') ?ys"
    by (rule elements_array [OF b]) (simp add: array)
  also have "\<dots> = take i xs @ take ?n (drop (Suc i) xs)"
    using array i by simp
  also have "\<dots> = take i (elements h v) @ drop (Suc i) (elements h v)"
    using array i by (simp add: elements_array [OF array(2) array(1)] drop_take)
  finally have el: "elements ?h' ?v' = take i (elements h v) @ drop (Suc i) (elements h v)" .
  have ok: "step_ok h v ?h' ?v'"
    using val array by (simp add: step_ok_def frame_update)
  show ?thesis using r ok el by simp
qed

lemma index_op_spec:
  assumes v: "valid h v" and i: "i < size_m v"
  shows "\<exists>p. index_op i v = Inr p \<and> load p h = Inr (elements h v ! i)"
  using load_own [OF v i] i by (simp add: index_op_def ArrayPtr_index_def)

section \<open>Swap and copy assignment\<close>

lemma swap_valid:
  "valid h a \<Longrightarrow> valid h b \<Longrightarrow> valid h (fst (swap a b)) \<and> valid h (snd (swap a b))
     \<and> elements h (fst (swap a b)) = elements h b \<and> elements h (snd (swap a b)) = elements h a"
  by (simp add: swap_def valid_def elements_def)

lemma copy_assign_spec:
  assumes t: "valid h this" and r: "valid h rhs"
    and s: "items_m rhs = None \<or> items_m rhs \<noteq> items_m this"
  shows "\<exists>v' h'. copy_assign dflt junk False rhs this h = Inr (v', h') \<and> valid h' v'
     \<and> elements h' v' = elements h rhs \<and> valid h' rhs \<and> elements h' rhs = elements h rhs"
proof -
  from SimpleVector_copy_spec [OF r, where dflt=dflt and junk=junk]
  obtain b h1 where c: "SimpleVector_copy dflt junk rhs h = Inr (b, h1)" "valid h1 b"
    "fresh h (items_m b)" "frame None h h1" "size_m b = size_m rhs" "capacity_m b = size_m rhs"
    "elements h1 b = elements h rhs"
    by blast
  let ?v' = "\<lparr>items_m = items_m b, size_m = size_m b, capacity_m = capacity_m b\<rparr>"
  let ?h' = "ArrayPtr_destroy (items_m this) h1"
  have res: "copy_assign dflt junk False rhs this h = Inr (?v', ?h')"
    using c(1) by (simp add: copy_assign_def bindE_Inr swap_def destroy_def)
  have f: "frame (items_m this) h1 ?h'"
    by (cases "items_m this") (simp_all add: ArrayPtr_destroy_def frame_refl frame_update)
  have "items_m rhs = None \<or> items_m rhs \<noteq> None" by blast
  from frame_other [OF c(4) r this]
  have r1: "valid h1 rhs" "elements h1 rhs = elements h rhs" by simp_all
  from frame_other [OF f r1(1) s]
  have r2: "valid ?h' rhs" "elements ?h' rhs = elements h1 rhs" by simp_all
  have sb: "items_m b = None \<or> items_m b \<noteq> items_m this"
  proof (cases "items_m this")
    case None
    then show ?thesis by (cases "items_m b") simp_all
  next
    case (Some x)
    then have "x < length h" using t by (auto simp: valid_def owns_def block_of_def split: if_splits)
    then have "\<not> fresh h (items_m this)" using Some by (simp add: fresh_def)
    then show ?thesis using c(3) by auto
  qed
  from frame_other [OF f c(2) sb]
  have b2: "valid ?h' b" "elements ?h' b = elements h1 b" by simp_all
  have "valid ?h' ?v'" using b2(1) by (simp add: valid_def)
  moreover have "elements ?h' ?v' = elements h rhs"
    using b2(2) c(7) by (simp add: elements_def)
  ultimately show ?thesis using res r2 r1 by simp
qed

section \<open>The comparison operators\<close>

lemma operator_eq_spec:
  assumes a: "valid h a" and b: "valid h b" and s: "same \<longrightarrow> a = b"
  shows "operator_eq same a b h = Inr (size_m a = size_m b \<and> elements h a = elements h b)"
proof (cases same)
  case True
  then show ?thesis using s by (simp add: operator_eq_def)
next
  case False
  show ?thesis
  proof (cases "size_m a = size_m b")
    case ne: False
    then have "elements h a \<noteq> elements h b"
      using length_elements [OF a] length_elements [OF b] by auto
    then show ?thesis using False ne by (simp add: operator_eq_def GetSize_def)
  next
    case eq: True
    show ?thesis
    proof (cases "size_m a = 0")
      case True
      then show ?thesis
        using False eq
        by (simp add: operator_eq_def GetSize_def std_equal_def distance_def ptr_le_def begin_it_def
            end_it_def ArrayPtr_Get_def ptr_add_def bindE_Inr elements_empty)
    next
      case pos: False
      from a pos obtain x xs where x: "items_m a = Some x" "block_of h x = Some xs" "size_m a \<le> length xs"
        by (cases rule: valid_cases) auto
      from b pos eq obtain y ys where y: "items_m b = Some y" "block_of h y = Some ys" "size_m b \<le> length ys"
        by (cases rule: valid_cases) auto
      have "equal_loop (size_m a) (Some x, 0) (Some y, 0) h =
          Inr (take (size_m a) (drop 0 xs) = take (size_m a) (drop 0 ys))"
        using x y eq by (intro equal_loop_blocks) simp_all
      then show ?thesis
        using False eq x y
        by (simp add: operator_eq_def GetSize_def std_equal_def distance_def ptr_le_def begin_it_def
            end_it_def ArrayPtr_Get_def ptr_add_def bindE_Inr elements_array [OF x(2) x(1)]
            elements_array [OF y(2) y(1)])
    qed
  qed
qed

lemma operator_less_spec:
  assumes a: "valid h a" and b: "valid h b"
  shows "operator_less a b h = Inr (ord_class.lexordp (elements h a) (elements h b))"
proof (cases "size_m a = 0")
  case True
  have "(elements h b \<noteq> []) = (size_m b \<noteq> 0)"
    using length_elements [OF b] length_0_conv [of "elements h b"] by (simp del: length_0_conv)
  then show ?thesis
    using True
    by (simp add: operator_less_def std_lexicographical_compare_def distance_def ptr_le_def begin_it_def
            end_it_def ArrayPtr_Get_def ptr_add_def bindE_Inr elements_empty)
next
  case pa: False
  from a pa obtain x xs where x: "items_m a = Some x" "block_of h x = Some xs" "size_m a \<le> length xs"
    by (cases rule: valid_cases) auto
  show ?thesis
  proof (cases "size_m b = 0")
    case True
    then show ?thesis
      by (simp add: operator_less_def std_lexicographical_compare_def distance_def ptr_le_def begin_it_def
            end_it_def ArrayPtr_Get_def ptr_add_def bindE_Inr elements_empty lexicographical_loop_0)
  next
    case pb: False
    from b pb obtain y ys where y: "items_m b = Some y" "block_of h y = Some ys" "size_m b \<le> length ys"
      by (cases rule: valid_cases) auto
    have "lexicographical_loop (size_m a) (size_m b) (Some x, 0) (Some y, 0) h =
          Inr (ord_class.lexordp (take (size_m a) (drop 0 xs)) (take (size_m b) (drop 0 ys)))"
      using x y by (intro lexicographical_loop_blocks) simp_all
    then show ?thesis
      using x y
      by (simp add: operator_less_def std_lexicographical_compare_def distance_def ptr_le_def begin_it_def
            end_it_def ArrayPtr_Get_def ptr_add_def bindE_Inr elements_array [OF x(2) x(1)]
            elements_array [OF y(2) y(1)])
  qed
qed

lemma lexordp_lexicographic_less:
  "ord_class.lexordp xs ys = lexicographic_less xs ys"
  by (induction xs ys rule: lexicographic_less.induct) auto

lemma lexicographic_less_prefix: "ys \<noteq> [] \<Longrightarrow> lexicographic_less xs (xs @ ys)"
  by (induction xs) (auto simp: neq_Nil_conv)

section \<open>Sequences of calls: growth and frame\<close>

lemma doubling_step:
  fixes n c :: nat
  assumes "(n = 0 \<and> c = 0) \<or> (\<exists>k. c = 2 ^ k \<and> n \<le> c \<and> c < 2 * n)"
  shows "\<exists>k. (if c = 0 then 1 else if n = c then c * 2 else c) = 2 ^ k
     \<and> n + 1 \<le> (if c = 0 then 1 else if n = c then c * 2 else c)
     \<and> (if c = 0 then 1 else if n = c then c * 2 else c) < 2 * (n + 1)"
proof -
  consider "n = 0" "c = 0" | k where "c = 2 ^ k" "n \<le> c" "c < 2 * n" using assms by blast
  then show ?thesis
  proof cases
    case 1
    then show ?thesis by (auto intro: exI [of _ 0])
  next
    case 2
    show ?thesis
    proof (cases "n = c")
      case True
      then show ?thesis using 2 by (auto intro: exI [of _ "Suc k"])
    next
      case False
      then show ?thesis using 2 by (auto intro: exI [of _ k])
    qed
  qed
qed

lemma smallest_power:
  fixes n :: nat
  assumes "n \<le> 2 ^ k" "2 ^ k < 2 * n" "n \<le> 2 ^ j"
  shows "k \<le> j"
proof (rule ccontr)
  assume "\<not> k \<le> j"
  then have "Suc j \<le> k" by simp
  then have "(2::nat) ^ Suc j \<le> 2 ^ k" by (rule power_increasing) simp
  then show False using assms by simp
qed

lemma PushBack_all_spec:
  assumes "valid h v"
    and "(size_m v = 0 \<and> capacity_m v = 0)
       \<or> (\<exists>k. capacity_m v = 2 ^ k \<and> size_m v \<le> capacity_m v \<and> capacity_m v < 2 * size_m v)"
  shows "\<exists>v' h'. PushBack_all junk xs v h = Inr (v', h') \<and> valid h' v'
     \<and> size_m v' = size_m v + length xs \<and> elements h' v' = elements h v @ xs
     \<and> ((size_m v' = 0 \<and> capacity_m v' = 0)
       \<or> (\<exists>k. capacity_m v' = 2 ^ k \<and> size_m v' \<le> capacity_m v' \<and> capacity_m v' < 2 * size_m v'))"
  using assms
proof (induction xs arbitrary: v h)
  case Nil
  then show ?case by simp
next
  case (Cons x xs)
  obtain v1 h1 where 1: "PushBack junk x v h = Inr (v1, h1)" "step_ok h v h1 v1"
    "size_m v1 = size_m v + 1"
    "capacity_m v1 = (if capacity_m v = 0 then 1
                        else if size_m v = capacity_m v then capacity_m v * 2 else capacity_m v)"
    "elements h1 v1 = elements h v @ [x]"
    using PushBack_spec [OF Cons.prems(1), where junk=junk and x=x] by blast
  have v1: "valid h1 v1" using 1 by (simp add: step_ok_def)
  have d: "\<exists>k. capacity_m v1 = 2 ^ k \<and> size_m v1 \<le> capacity_m v1 \<and> capacity_m v1 < 2 * size_m v1"
    using doubling_step [OF Cons.prems(2)] 1(3,4) by simp
  then have d': "(size_m v1 = 0 \<and> capacity_m v1 = 0)
       \<or> (\<exists>k. capacity_m v1 = 2 ^ k \<and> size_m v1 \<le> capacity_m v1 \<and> capacity_m v1 < 2 * size_m v1)"
    by blast
  from Cons.IH [OF v1 d'] 1 show ?case
    by (auto simp: bindE_Inr)
qed

lemma PushBack_all_from_default:
  "\<exists>v h'. PushBack_all junk xs SimpleVector_default h = Inr (v, h')
      \<and> size_m v = length xs \<and> elements h' v = xs
      \<and> (1 \<le> length xs \<longrightarrow> (\<exists>k. capacity_m v = 2 ^ k \<and> length xs \<le> 2 ^ k
            \<and> (\<forall>j. length xs \<le> 2 ^ j \<longrightarrow> k \<le> j)))"
proof -
  have s: "size_m SimpleVector_default = 0 \<and> capacity_m SimpleVector_default = 0"
    by (simp add: SimpleVector_default_def)
  then have "(size_m SimpleVector_default = 0 \<and> capacity_m SimpleVector_default = 0)
       \<or> (\<exists>k. capacity_m SimpleVector_default = 2 ^ k
             \<and> size_m SimpleVector_default \<le> capacity_m SimpleVector_default
             \<and> capacity_m SimpleVector_default < 2 * size_m SimpleVector_default)"
    by blast
  from PushBack_all_spec [where h=h and v=SimpleVector_default and junk=junk and xs=xs, OF valid_default this]
  obtain v h' where r0: "PushBack_all junk xs SimpleVector_default h = Inr (v, h')"
    "size_m v = size_m SimpleVector_default + length xs"
    "elements h' v = elements h SimpleVector_default @ xs"
    "(size_m v = 0 \<and> capacity_m v = 0)
       \<or> (\<exists>k. capacity_m v = 2 ^ k \<and> size_m v \<le> capacity_m v \<and> capacity_m v < 2 * size_m v)"
    by blast
  have e0: "elements h SimpleVector_default = []"
    by (rule elements_empty) (simp add: s)
  have r: "PushBack_all junk xs SimpleVector_default h = Inr (v, h')"
    "size_m v = length xs" "elements h' v = xs"
    "(size_m v = 0 \<and> capacity_m v = 0)
       \<or> (\<exists>k. capacity_m v = 2 ^ k \<and> size_m v \<le> capacity_m v \<and> capacity_m v < 2 * size_m v)"
    using r0 s e0 by simp_all
  have "\<exists>k. capacity_m v = 2 ^ k \<and> length xs \<le> 2 ^ k \<and> (\<forall>j. length xs \<le> 2 ^ j \<longrightarrow> k \<le> j)"
    if ne: "1 \<le> length xs"
  proof -
    obtain k where k: "capacity_m v = 2 ^ k" "size_m v \<le> capacity_m v" "capacity_m v < 2 * size_m v"
      using r(2,4) ne by auto
    have "\<forall>j. length xs \<le> 2 ^ j \<longrightarrow> k \<le> j"
      using k r(2) smallest_power [of "length xs" k] by auto
    then show ?thesis using k r(2) by auto
  qed
  then show ?thesis
    using r by auto
qed

lemma mutate_step:
  assumes v: "valid h v" and m: "mutate dflt junk m v h = Inr (v', h')"
  shows "step_ok h v h' v'"
proof (cases m)
  case (DoPushBack x)
  then show ?thesis using m PushBack_spec [OF v, where junk=junk and x=x] by auto
next
  case (DoInsert i x)
  with m obtain it where r: "Insert dflt junk (ptr_add (begin_it v) i) x v h = Inr (it, v', h')"
    by (auto simp: bindE_eq_Inr)
  then have "i \<le> size_m v"
    by (simp add: Insert_def ptr_le_def cend_def end_it_def ptr_add_def begin_it_def ArrayPtr_Get_def
        split: if_splits)
  from Insert_spec [OF v this, where dflt=dflt and junk=junk and x=x] r show ?thesis by auto
next
  case (DoErase i)
  with m obtain it where r: "Erase (ptr_add (begin_it v) i) v h = Inr (it, v', h')"
    by (auto simp: bindE_eq_Inr)
  then have "i < size_m v"
    by (simp add: Erase_def ptr_less_def cend_def end_it_def ptr_add_def begin_it_def ArrayPtr_Get_def
        split: if_splits)
  from Erase_spec [OF v this] r show ?thesis by auto
next
  case DoPopBack
  with m have r: "PopBack v = Inr v'" "h' = h" by (auto simp: bindE_eq_Inr)
  then have "size_m v \<noteq> 0" by (simp add: PopBack_def IsEmpty_def split: if_splits)
  from PopBack_spec [OF v this] r show ?thesis by auto
next
  case (DoResize n)
  then show ?thesis using m Resize_spec [OF v, where dflt=dflt and junk=junk and n=n] by auto
next
  case (DoReserve n)
  then show ?thesis using m Reserve_spec [OF v, where junk=junk and n=n] by auto
next
  case DoClear
  then show ?thesis using m Clear_spec [OF v] by auto
next
  case (DoAssignAt i x)
  with m obtain p where r: "At i v = Inr p" "store p x h = Inr h'" "v' = v"
    by (auto simp: bindE_eq_Inr)
  then have i: "i < size_m v" and p: "p = (items_m v, i)"
    by (auto simp: At_def ArrayPtr_index_def split: if_splits)
  from store_elements [OF v i, of x] r p show ?thesis by auto
next
  case (DoAssignIndex i x)
  with m obtain p where r: "index_op i v = Inr p" "store p x h = Inr h'" "v' = v"
    by (auto simp: bindE_eq_Inr)
  then have i: "i < size_m v" and p: "p = (items_m v, i)"
    by (auto simp: index_op_def ArrayPtr_index_def split: if_splits)
  from store_elements [OF v i, of x] r p show ?thesis by auto
qed

lemma mutate_all_step:
  "valid h v \<Longrightarrow> mutate_all dflt junk ms v h = Inr (v', h') \<Longrightarrow> step_ok h v h' v'"
proof (induction ms arbitrary: v h)
  case Nil
  then show ?case by (simp add: step_ok_refl)
next
  case (Cons m ms)
  from Cons.prems(2) obtain v1 h1 where 1: "mutate dflt junk m v h = Inr (v1, h1)"
    "mutate_all dflt junk ms v1 h1 = Inr (v', h')"
    by (auto simp: bindE_eq_Inr)
  have s1: "step_ok h v h1 v1" by (rule mutate_step [OF Cons.prems(1) 1(1)])
  then have "valid h1 v1" by (simp add: step_ok_def)
  from Cons.IH [OF this 1(2)] s1 show ?case by (rule step_ok_trans [rotated])
qed

section \<open>Example states\<close>

text \<open>
  A vector holding 10, 20, 30 with one unused slot, a full one, and a store with two
  vectors, used where a statement is instantiated.
\<close>

lemma example_valid: "valid [Some [10, 20, 30, 0 :: nat]] \<lparr>items_m = Some 0, size_m = 3, capacity_m = 4\<rparr>"
  by (simp add: valid_def owns_def buffer_def block_of_def)

lemma example_elements:
  "elements [Some [10, 20, 30, 0 :: nat]] \<lparr>items_m = Some 0, size_m = 3, capacity_m = 4\<rparr> = [10, 20, 30]"
  by (simp add: elements_def buffer_def block_of_def)

lemma example_size:
  "GetSize \<lparr>items_m = Some 0, size_m = 3, capacity_m = 4\<rparr> = 3"
  "GetCapacity \<lparr>items_m = Some 0, size_m = 3, capacity_m = 4\<rparr> = 4"
  "IsEmpty \<lparr>items_m = Some 0, size_m = 3, capacity_m = 4\<rparr> = False"
  by (simp_all add: GetSize_def GetCapacity_def IsEmpty_def)

lemma example_full:
  "valid [Some [10, 20, 30 :: nat]] \<lparr>items_m = Some 0, size_m = 3, capacity_m = 3\<rparr>"
  "elements [Some [10, 20, 30 :: nat]] \<lparr>items_m = Some 0, size_m = 3, capacity_m = 3\<rparr> = [10, 20, 30]"
  "GetSize \<lparr>items_m = Some 0, size_m = 3, capacity_m = 3\<rparr> = 3"
  by (simp_all add: valid_def owns_def elements_def buffer_def block_of_def GetSize_def)

lemma example_pair:
  "valid [Some [10, 20 :: nat], Some [10, 20, 30]] \<lparr>items_m = Some 0, size_m = 2, capacity_m = 2\<rparr>"
  "valid [Some [10, 20 :: nat], Some [10, 20, 30]] \<lparr>items_m = Some 1, size_m = 3, capacity_m = 3\<rparr>"
  "elements [Some [10, 20 :: nat], Some [10, 20, 30]] \<lparr>items_m = Some 0, size_m = 2, capacity_m = 2\<rparr>
     = [10, 20]"
  "elements [Some [10, 20 :: nat], Some [10, 20, 30]] \<lparr>items_m = Some 1, size_m = 3, capacity_m = 3\<rparr>
     = [10, 20, 30]"
  "GetSize \<lparr>items_m = Some 0, size_m = 2, capacity_m = 2\<rparr> = 2"
  "GetSize \<lparr>items_m = Some 1, size_m = 3, capacity_m = 3\<rparr> = 3"
  by (simp_all add: valid_def owns_def elements_def buffer_def block_of_def GetSize_def)

section \<open>The claims\<close>

text \<open>
  C1. Start from a default-constructed vector (size 0, capacity 0) in any store and call
  \<^verbatim>\<open>PushBack\<close> once for each of \<open>N\<close> values. At every step \<open>n \<le> N\<close> the first \<open>n\<close> calls have
  returned, the vector has size \<open>n\<close> and holds the first \<open>n\<close> values in order, and for
  \<open>n \<ge> 1\<close> its capacity is the smallest power of two that is at least \<open>n\<close>: the capacities
  met on the way are 1, 2, 4, 8, ... Each single call on a vector that satisfies the class
  invariant adds one to the size and takes capacity 0 to 1, the capacity of a full vector
  to twice its value, and leaves any other capacity as it is.
\<close>

theorem PushBack_growth:
  "(\<forall>n \<le> length xs.
      \<exists>v h'. PushBack_all junk (take n xs) SimpleVector_default h = Inr (v, h')
        \<and> GetSize v = n \<and> elements h' v = take n xs
        \<and> (1 \<le> n \<longrightarrow> (\<exists>k. GetCapacity v = 2 ^ k \<and> n \<le> 2 ^ k
              \<and> (\<forall>j. n \<le> 2 ^ j \<longrightarrow> k \<le> j))))
   \<and> (valid h w \<longrightarrow>
        (\<exists>w' h'. PushBack junk x w h = Inr (w', h') \<and> GetSize w' = GetSize w + 1
          \<and> GetCapacity w' = (if GetCapacity w = 0 then 1
               else if GetSize w = GetCapacity w then GetCapacity w * 2 else GetCapacity w)))"
proof (intro conjI allI impI)
  fix n assume n: "n \<le> length xs"
  then have l: "length (take n xs) = n" by simp
  from PushBack_all_from_default [of junk "take n xs" h]
  show "\<exists>v h'. PushBack_all junk (take n xs) SimpleVector_default h = Inr (v, h')
        \<and> GetSize v = n \<and> elements h' v = take n xs
        \<and> (1 \<le> n \<longrightarrow> (\<exists>k. GetCapacity v = 2 ^ k \<and> n \<le> 2 ^ k
              \<and> (\<forall>j. n \<le> 2 ^ j \<longrightarrow> k \<le> j)))"
    unfolding l by (auto simp: GetSize_def GetCapacity_def)
next
  assume "valid h w"
  from PushBack_spec [OF this, where junk=junk and x=x]
  show "\<exists>w' h'. PushBack junk x w h = Inr (w', h') \<and> GetSize w' = GetSize w + 1
          \<and> GetCapacity w' = (if GetCapacity w = 0 then 1
               else if GetSize w = GetCapacity w then GetCapacity w * 2 else GetCapacity w)"
    by (auto simp: GetSize_def GetCapacity_def)
qed

theorem PushBack_growth_witness:
  "3 \<le> length [10, 20, 30 :: nat]
   \<and> (\<exists>v h'. PushBack_all 0 [10, 20, 30 :: nat] SimpleVector_default [] = Inr (v, h')
        \<and> GetSize v = 3 \<and> elements h' v = [10, 20, 30] \<and> GetCapacity v = 4)
   \<and> valid ([] :: nat heap) SimpleVector_default
   \<and> (\<exists>w' h'. PushBack (0::nat) 7 SimpleVector_default [] = Inr (w', h') \<and> GetSize w' = 1
          \<and> GetCapacity w' = 1)"
proof -
  have v: "valid ([] :: nat heap) SimpleVector_default"
    by (rule valid_default)
  have g: "GetSize SimpleVector_default = 0" "GetCapacity SimpleVector_default = 0"
    by (simp_all add: GetSize_def GetCapacity_def SimpleVector_default_def)
  note t = PushBack_growth [where junk = "0::nat" and xs = "[10, 20, 30]" and h = "[]"
      and w = SimpleVector_default and x = 7]
  have n: "3 \<le> length [10, 20, 30 :: nat]" by simp
  from t [THEN conjunct1, rule_format, OF n]
  obtain u h' k where u: "PushBack_all 0 [10, 20, 30 :: nat] SimpleVector_default [] = Inr (u, h')"
    "GetSize u = 3" "elements h' u = [10, 20, 30]"
    "GetCapacity u = 2 ^ k" "(3::nat) \<le> 2 ^ k" "\<forall>j. (3::nat) \<le> 2 ^ j \<longrightarrow> k \<le> j"
    by auto
  have "k \<le> 2" using u(6) [rule_format, of 2] by simp
  moreover have "k \<noteq> 0" using u(5) by (cases k) simp_all
  moreover have "k \<noteq> 1" using u(5) by (cases "k = 1") simp_all
  ultimately have "k = 2" by simp
  then have c: "GetCapacity u = 4" using u(4) by simp
  from t v g have p: "\<exists>w' h'. PushBack (0::nat) 7 SimpleVector_default [] = Inr (w', h') \<and> GetSize w' = 1
          \<and> GetCapacity w' = 1"
    by simp
  show ?thesis using n u(1,2,3) c v p by blast
qed

text \<open>
  C2. After a move, the source is empty (size 0, capacity 0) and the destination holds what
  the source held. The move constructor does this (\<open>SimpleVector_move_spec\<close> above). The
  defaulted move assignment does not: for \<^verbatim>\<open>a = {1, 2, 3}\<close> and a default-constructed \<^verbatim>\<open>b\<close>,
  after \<^verbatim>\<open>b = std::move(a)\<close> the destination holds 1, 2, 3 but the source still reports
  size 3 and capacity 3.
\<close>

theorem move_assign_source_keeps_size:
  "bindE (SimpleVector_init 0 0 [1, 2, 3 :: nat] []) (\<lambda>(a, h).
     (case move_assign SimpleVector_default a of (b', a') \<Rightarrow>
        Inr (GetSize a', GetCapacity a', elements h b'))) = Inr (3, 3, [1, 2, 3])"
  by code_simp

text \<open>
  C3. \<^verbatim>\<open>At(i)\<close> fails with \<^verbatim>\<open>OutOfRange\<close> exactly when \<open>i\<close> is at least the size, and it
  fails in no other way. When \<open>i\<close> is less than the size of a vector that satisfies the class
  invariant it returns a reference to the element at position \<open>i\<close>: reading through it gives
  that element, and assigning \<open>x\<close> through it replaces that element and no other. \<^verbatim>\<open>At\<close>
  itself returns neither a new object nor a new store: it changes nothing.
\<close>

theorem At_checked:
  "(At i v = Inl OutOfRange \<longleftrightarrow> i \<ge> GetSize v)
   \<and> (\<forall>e. At i v = Inl e \<longrightarrow> e = OutOfRange)
   \<and> (valid h v \<and> i < GetSize v \<longrightarrow>
        (\<exists>p. At i v = Inr p \<and> load p h = Inr (elements h v ! i)
           \<and> (\<exists>h'. store p x h = Inr h' \<and> valid h' v \<and> elements h' v = (elements h v)[i := x])))"
proof (intro conjI impI allI)
  show "At i v = Inl OutOfRange \<longleftrightarrow> i \<ge> GetSize v"
    by (simp add: At_def GetSize_def)
next
  fix e assume "At i v = Inl e"
  then show "e = OutOfRange" by (simp add: At_def split: if_splits)
next
  assume a: "valid h v \<and> i < GetSize v"
  then have v: "valid h v" and i: "i < size_m v" by (simp_all add: GetSize_def)
  have r: "At i v = Inr (items_m v, i)" using i by (simp add: At_def ArrayPtr_index_def)
  from store_elements [OF v i, of x] load_own [OF v i] r
  show "\<exists>p. At i v = Inr p \<and> load p h = Inr (elements h v ! i)
           \<and> (\<exists>h'. store p x h = Inr h' \<and> valid h' v \<and> elements h' v = (elements h v)[i := x])"
    by (auto simp: step_ok_def)
qed

theorem At_checked_witness:
  "valid [Some [10, 20, 30, 0 :: nat]] \<lparr>items_m = Some 0, size_m = 3, capacity_m = 4\<rparr>
   \<and> 1 < GetSize \<lparr>items_m = Some 0, size_m = 3, capacity_m = 4\<rparr>
   \<and> (\<exists>p. At 1 \<lparr>items_m = Some 0, size_m = 3, capacity_m = 4\<rparr> = Inr p
        \<and> load p [Some [10, 20, 30, 0 :: nat]] = Inr 20
        \<and> (\<exists>h'. store p 7 [Some [10, 20, 30, 0 :: nat]] = Inr h'
              \<and> valid h' \<lparr>items_m = Some 0, size_m = 3, capacity_m = 4\<rparr>
              \<and> elements h' \<lparr>items_m = Some 0, size_m = 3, capacity_m = 4\<rparr> = [10, 7, 30]))"
  using At_checked [of 1 "\<lparr>items_m = Some 0, size_m = 3, capacity_m = 4\<rparr>"
      "[Some [10, 20, 30, 0 :: nat]]" 7]
  by (simp add: example_valid example_elements example_size)

text \<open>
  C4. Both forms of \<^verbatim>\<open>operator[]\<close> are to assert that the index is less than the current
  size. The mutable form does (\<open>index_op_spec\<close> above gives the element under that
  precondition). The const form asserts against the name \<^verbatim>\<open>size\<close>, which is not the
  vector's size: on a vector of size 3 its assertion lets index 5 pass when that name
  stands for 6, and stops index 1 when that name stands for 0.
\<close>

theorem index_op_const_unrelated_size:
  "index_op 5 \<lparr>items_m = Some 0, size_m = 3, capacity_m = 3\<rparr> = Inl AssertionFailed
   \<and> index_op_const 6 5 \<lparr>items_m = Some 0, size_m = 3, capacity_m = 3\<rparr> = Inr (Some 0, 5)
   \<and> index_op 1 \<lparr>items_m = Some 0, size_m = 3, capacity_m = 3\<rparr> = Inr (Some 0, 1)
   \<and> index_op_const 0 1 \<lparr>items_m = Some 0, size_m = 3, capacity_m = 3\<rparr> = Inl AssertionFailed"
  by (simp add: index_op_def index_op_const_def ArrayPtr_index_def)

text \<open>
  C5. For a vector that satisfies the class invariant, a position \<open>begin() + i\<close> with \<open>i\<close> at
  most the size (so \<^verbatim>\<open>end()\<close> included) and any value \<open>x\<close>: \<^verbatim>\<open>Insert\<close> returns, \<^verbatim>\<open>Erase\<close> at
  the iterator it returned returns too, and the vector then has the size and the elements
  it started with. So it compares equal, by \<^verbatim>\<open>operator==\<close>, to every vector \<open>w\<close> with an
  array of its own that compared equal to the original. Nothing is assumed about the
  capacity: the statement covers the insertion in place and the one that reallocates.
\<close>

theorem Insert_Erase_inverse:
  assumes "valid h v" and "i \<le> GetSize v"
  shows "\<exists>it v1 h1 it' v2 h2.
       Insert dflt junk (ptr_add (begin_it v) i) x v h = Inr (it, v1, h1)
     \<and> Erase it v1 h1 = Inr (it', v2, h2)
     \<and> valid h2 v2 \<and> GetSize v2 = GetSize v \<and> elements h2 v2 = elements h v
     \<and> (\<forall>w. valid h w \<and> (items_m w = None \<or> items_m w \<noteq> items_m v)
             \<and> operator_eq False w v h = Inr True
           \<longrightarrow> operator_eq False v2 w h2 = Inr True)"
proof -
  have i: "i \<le> size_m v" using assms(2) by (simp add: GetSize_def)
  from Insert_spec [OF assms(1) i, where dflt=dflt and junk=junk and x=x]
  obtain v1 h1 where 1:
    "Insert dflt junk (ptr_add (begin_it v) i) x v h = Inr (ptr_add (begin_it v1) i, v1, h1)"
    "step_ok h v h1 v1" "size_m v1 = size_m v + 1"
    "elements h1 v1 = take i (elements h v) @ x # drop i (elements h v)"
    by blast
  have v1: "valid h1 v1" using 1(2) by (simp add: step_ok_def)
  have i1: "i < size_m v1" using i 1(3) by simp
  from Erase_spec [OF v1 i1]
  obtain v2 h2 where 2:
    "Erase (ptr_add (begin_it v1) i) v1 h1 = Inr (ptr_add (begin_it v1) i, v2, h2)"
    "step_ok h1 v1 h2 v2" "size_m v2 = size_m v1 - 1"
    "elements h2 v2 = take i (elements h1 v1) @ drop (Suc i) (elements h1 v1)"
    by blast
  have l: "length (elements h v) = size_m v" by (rule length_elements [OF assms(1)])
  have el: "elements h2 v2 = elements h v"
    using 2(4) 1(4) i l by (simp add: min_def)
  have ok: "step_ok h v h2 v2" by (rule step_ok_trans [OF 1(2) 2(2)])
  then have v2: "valid h2 v2" by (simp add: step_ok_def)
  have "operator_eq False v2 w h2 = Inr True"
    if w: "valid h w" "items_m w = None \<or> items_m w \<noteq> items_m v"
      "operator_eq False w v h = Inr True" for w
  proof -
    have w2: "valid h2 w" "elements h2 w = elements h w"
      using step_ok_other [OF ok w(1,2)] by simp_all
    have "size_m w = size_m v \<and> elements h w = elements h v"
      using operator_eq_spec [OF w(1) assms(1), of False] w(3) by simp
    then show ?thesis
      using operator_eq_spec [OF v2 w2(1), of False] w2(2) el 2(3) 1(3) by simp
  qed
  then show ?thesis
    using 1(1) 2(1) v2 el 2(3) 1(3) by (auto simp: GetSize_def)
qed

theorem Insert_Erase_inverse_witness:
  "valid [Some [10, 20, 30, 0 :: nat]] \<lparr>items_m = Some 0, size_m = 3, capacity_m = 4\<rparr>
   \<and> 1 \<le> GetSize \<lparr>items_m = Some 0, size_m = 3, capacity_m = 4\<rparr>
   \<and> (\<exists>it v1 h1 it' v2 h2.
         Insert 0 0 (ptr_add (begin_it \<lparr>items_m = Some 0, size_m = 3, capacity_m = 4\<rparr>) 1) 99
           \<lparr>items_m = Some 0, size_m = 3, capacity_m = 4\<rparr> [Some [10, 20, 30, 0 :: nat]] = Inr (it, v1, h1)
       \<and> Erase it v1 h1 = Inr (it', v2, h2)
       \<and> valid h2 v2 \<and> GetSize v2 = 3 \<and> elements h2 v2 = [10, 20, 30])
   \<and> valid [Some [10, 20, 30 :: nat]] \<lparr>items_m = Some 0, size_m = 3, capacity_m = 3\<rparr>
   \<and> 3 \<le> GetSize \<lparr>items_m = Some 0, size_m = 3, capacity_m = 3\<rparr>
   \<and> (\<exists>it v1 h1 it' v2 h2.
         Insert 0 0 (ptr_add (begin_it \<lparr>items_m = Some 0, size_m = 3, capacity_m = 3\<rparr>) 3) 99
           \<lparr>items_m = Some 0, size_m = 3, capacity_m = 3\<rparr> [Some [10, 20, 30 :: nat]] = Inr (it, v1, h1)
       \<and> Erase it v1 h1 = Inr (it', v2, h2)
       \<and> valid h2 v2 \<and> GetSize v2 = 3 \<and> elements h2 v2 = [10, 20, 30])"
proof -
  have k1: "1 \<le> GetSize \<lparr>items_m = Some 0, size_m = 3, capacity_m = 4\<rparr>"
    by (simp add: example_size)
  have k3: "3 \<le> GetSize \<lparr>items_m = Some 0, size_m = 3, capacity_m = 3\<rparr>"
    by (simp add: example_full)
  note a = Insert_Erase_inverse [OF example_valid k1, where dflt = 0 and junk = 0 and x = 99,
      unfolded example_size example_elements]
  note b = Insert_Erase_inverse [OF example_full(1) k3, where dflt = 0 and junk = 0 and x = 99,
      unfolded example_full]
  from a have 1: "\<exists>it v1 h1 it' v2 h2.
         Insert 0 0 (ptr_add (begin_it \<lparr>items_m = Some 0, size_m = 3, capacity_m = 4\<rparr>) 1) 99
           \<lparr>items_m = Some 0, size_m = 3, capacity_m = 4\<rparr> [Some [10, 20, 30, 0 :: nat]] = Inr (it, v1, h1)
       \<and> Erase it v1 h1 = Inr (it', v2, h2)
       \<and> valid h2 v2 \<and> GetSize v2 = 3 \<and> elements h2 v2 = [10, 20, 30]"
    by blast
  from b have 2: "\<exists>it v1 h1 it' v2 h2.
         Insert 0 0 (ptr_add (begin_it \<lparr>items_m = Some 0, size_m = 3, capacity_m = 3\<rparr>) 3) 99
           \<lparr>items_m = Some 0, size_m = 3, capacity_m = 3\<rparr> [Some [10, 20, 30 :: nat]] = Inr (it, v1, h1)
       \<and> Erase it v1 h1 = Inr (it', v2, h2)
       \<and> valid h2 v2 \<and> GetSize v2 = 3 \<and> elements h2 v2 = [10, 20, 30]"
    by blast
  show ?thesis
    using example_valid k1 1 example_full(1) k3 2 by blast
qed

text \<open>
  C6. The class invariant (size at most capacity, capacity the length of the owned array)
  holds after every constructor and is kept by the member functions: see
  \<open>SimpleVector_size_spec\<close>, \<open>SimpleVector_fill_spec\<close>, \<open>SimpleVector_init_spec\<close>,
  \<open>SimpleVector_reserve_spec\<close>, \<open>SimpleVector_copy_spec\<close>, \<open>SimpleVector_move_spec\<close>,
  \<open>copy_assign_spec\<close>, \<open>swap_valid\<close> and \<open>mutate_step\<close> above. The defaulted move
  assignment breaks it: for \<^verbatim>\<open>a = {1, 2, 3}\<close> and a default-constructed \<^verbatim>\<open>b\<close>, both
  satisfying the invariant, after \<^verbatim>\<open>b = std::move(a)\<close> the source has size 3 and capacity 3
  but owns no array.
\<close>

theorem move_assign_breaks_invariant:
  "bindE (SimpleVector_init 0 0 [1, 2, 3 :: nat] []) (\<lambda>(a, h).
     (case move_assign SimpleVector_default a of (b', a') \<Rightarrow>
        Inr (valid h a, valid h SimpleVector_default, valid h a', items_m a', size_m a', capacity_m a',
             length (buffer h (items_m a'))))) = Inr (True, True, False, None, 3, 3, 0)"
  by code_simp

text \<open>
  C7. For a vector that satisfies the class invariant and \<open>k\<close> at most its size,
  \<^verbatim>\<open>Resize(k)\<close> returns, the size is then \<open>k\<close>, the capacity, the array pointer and the whole
  store are what they were (nothing is reallocated or released), and the elements at the
  positions \<open>[0, k)\<close> are unchanged.
\<close>

theorem Resize_shrink:
  assumes "valid h v" and "k \<le> GetSize v"
  shows "\<exists>v'. Resize dflt junk k v h = Inr (v', h) \<and> GetSize v' = k
     \<and> GetCapacity v' = GetCapacity v \<and> items_m v' = items_m v
     \<and> elements h v' = take k (elements h v)
     \<and> (\<forall>i < k. elements h v' ! i = elements h v ! i)"
proof -
  have k: "k \<le> size_m v" using assms(2) by (simp add: GetSize_def)
  have c: "\<not> k > capacity_m v" using k valid_size_le [OF assms(1)] by simp
  have r: "Resize dflt junk k v h = Inr (v\<lparr>size_m := k\<rparr>, h)"
    using k c by (simp add: Resize_def bindE_Inr)
  from shrink_step [OF assms(1) k] r show ?thesis
    by (simp add: GetSize_def GetCapacity_def)
qed

theorem Resize_shrink_witness:
  "valid [Some [10, 20, 30, 0 :: nat]] \<lparr>items_m = Some 0, size_m = 3, capacity_m = 4\<rparr>
   \<and> 2 \<le> GetSize \<lparr>items_m = Some 0, size_m = 3, capacity_m = 4\<rparr>
   \<and> (\<exists>v'. Resize 0 0 2 \<lparr>items_m = Some 0, size_m = 3, capacity_m = 4\<rparr> [Some [10, 20, 30, 0 :: nat]]
            = Inr (v', [Some [10, 20, 30, 0]])
        \<and> GetSize v' = 2 \<and> GetCapacity v' = 4
        \<and> elements [Some [10, 20, 30, 0 :: nat]] v' = [10, 20])"
  using Resize_shrink [where h = "[Some [10, 20, 30, 0 :: nat]]"
      and v = "\<lparr>items_m = Some 0, size_m = 3, capacity_m = 4\<rparr>" and k = 2 and dflt = 0 and junk = 0]
  by (auto simp add: example_valid example_elements example_size)

text \<open>
  C8. Copy construction from a vector \<open>a\<close> that satisfies the class invariant returns a
  vector \<open>b\<close> whose size and capacity both equal the size of \<open>a\<close> (so a capacity that \<open>a\<close>
  reserved and does not use is not kept), with the elements of \<open>a\<close> in order, and
  \<^verbatim>\<open>a == b\<close> holds right after the copy. \<open>a\<close> still satisfies the invariant and holds the
  same elements, and it keeps doing so after any sequence of mutations of \<open>b\<close>.
\<close>

theorem copy_independent:
  assumes "valid h a"
  shows "\<exists>b h1. SimpleVector_copy dflt junk a h = Inr (b, h1)
     \<and> GetSize b = GetSize a \<and> GetCapacity b = GetSize a
     \<and> elements h1 b = elements h a
     \<and> operator_eq False a b h1 = Inr True
     \<and> (GetSize a < GetCapacity a \<longrightarrow> GetCapacity b < GetCapacity a)
     \<and> valid h1 a \<and> elements h1 a = elements h a
     \<and> (\<forall>ms b' h2. mutate_all dflt junk ms b h1 = Inr (b', h2) \<longrightarrow>
           valid h2 a \<and> elements h2 a = elements h a)"
proof -
  from SimpleVector_copy_spec [OF assms, where dflt=dflt and junk=junk]
  obtain b h1 where c: "SimpleVector_copy dflt junk a h = Inr (b, h1)" "valid h1 b"
    "fresh h (items_m b)" "frame None h h1" "size_m b = size_m a" "capacity_m b = size_m a"
    "elements h1 b = elements h a"
    by blast
  have "items_m a = None \<or> items_m a \<noteq> None" by blast
  from frame_other [OF c(4) assms this]
  have a1: "valid h1 a" "elements h1 a = elements h a"
    by simp_all
  have eq: "operator_eq False a b h1 = Inr True"
    using operator_eq_spec [OF a1(1) c(2), of False] c(5,7) a1(2) by simp
  have sep: "items_m a = None \<or> items_m a \<noteq> items_m b"
  proof (cases "items_m a")
    case None
    then show ?thesis by simp
  next
    case (Some x)
    then have "x < length h" using assms by (auto simp: valid_def owns_def block_of_def split: if_splits)
    then have "\<not> fresh h (items_m a)" using Some by (simp add: fresh_def)
    then show ?thesis using c(3) by auto
  qed
  have "valid h2 a \<and> elements h2 a = elements h a"
    if "mutate_all dflt junk ms b h1 = Inr (b', h2)" for ms b' h2
    using step_ok_other [OF mutate_all_step [OF c(2) that] a1(1) sep] a1(2) by simp
  then show ?thesis
    using c a1 eq by (auto simp: GetSize_def GetCapacity_def)
qed

theorem copy_independent_witness:
  "valid [Some [10, 20, 30, 0 :: nat]] \<lparr>items_m = Some 0, size_m = 3, capacity_m = 4\<rparr>
   \<and> (\<exists>b h1. SimpleVector_copy 0 0 \<lparr>items_m = Some 0, size_m = 3, capacity_m = 4\<rparr>
                 [Some [10, 20, 30, 0 :: nat]] = Inr (b, h1)
         \<and> GetSize b = 3 \<and> GetCapacity b = 3 \<and> elements h1 b = [10, 20, 30]
         \<and> operator_eq False \<lparr>items_m = Some 0, size_m = 3, capacity_m = 4\<rparr> b h1 = Inr True
         \<and> GetCapacity b < 4
         \<and> (\<forall>ms b' h2. mutate_all 0 0 ms b h1 = Inr (b', h2) \<longrightarrow>
               valid h2 \<lparr>items_m = Some 0, size_m = 3, capacity_m = 4\<rparr>
               \<and> elements h2 \<lparr>items_m = Some 0, size_m = 3, capacity_m = 4\<rparr> = [10, 20, 30]))"
proof -
  note a = copy_independent [OF example_valid, where dflt = 0 and junk = 0,
      unfolded example_size example_elements]
  from a have "\<exists>b h1. SimpleVector_copy 0 0 \<lparr>items_m = Some 0, size_m = 3, capacity_m = 4\<rparr>
                 [Some [10, 20, 30, 0 :: nat]] = Inr (b, h1)
         \<and> GetSize b = 3 \<and> GetCapacity b = 3 \<and> elements h1 b = [10, 20, 30]
         \<and> operator_eq False \<lparr>items_m = Some 0, size_m = 3, capacity_m = 4\<rparr> b h1 = Inr True
         \<and> GetCapacity b < 4
         \<and> (\<forall>ms b' h2. mutate_all 0 0 ms b h1 = Inr (b', h2) \<longrightarrow>
               valid h2 \<lparr>items_m = Some 0, size_m = 3, capacity_m = 4\<rparr>
               \<and> elements h2 \<lparr>items_m = Some 0, size_m = 3, capacity_m = 4\<rparr> = [10, 20, 30])"
    by fastforce
  then show ?thesis using example_valid by blast
qed

text \<open>
  C9. For vectors that satisfy the class invariant, \<^verbatim>\<open>operator==\<close> returns true exactly
  when the sizes are equal and the elements are pairwise equal, and it returns true for a
  vector compared with itself; \<^verbatim>\<open>operator<\<close> returns the lexicographic order of the
  specification on the two element sequences, so a strict prefix is less than the longer
  sequence. The three examples: \<^verbatim>\<open>{1,2,3} == {1,2,3}\<close>, \<^verbatim>\<open>{1,2} < {1,2,3}\<close>,
  \<^verbatim>\<open>{1,3} > {1,2,9}\<close>.
\<close>

theorem comparison_operators:
  fixes h :: "('a::linorder) heap"
  assumes "valid h lhs" and "valid h rhs" and "same \<longrightarrow> lhs = rhs"
  shows "operator_eq same lhs rhs h =
           Inr (GetSize lhs = GetSize rhs
                \<and> (\<forall>i < GetSize lhs. elements h lhs ! i = elements h rhs ! i))
     \<and> operator_eq True lhs lhs h = Inr True
     \<and> operator_less lhs rhs h = Inr (lexicographic_less (elements h lhs) (elements h rhs))
     \<and> (\<forall>ys. ys \<noteq> [] \<and> elements h rhs = elements h lhs @ ys \<longrightarrow> operator_less lhs rhs h = Inr True)
     \<and> bindE (SimpleVector_init 0 0 [1, 2, 3 :: nat] []) (\<lambda>(a, h1).
         bindE (SimpleVector_init 0 0 [1, 2, 3] h1) (\<lambda>(b, h2). operator_eq False a b h2)) = Inr True
     \<and> bindE (SimpleVector_init 0 0 [1, 2 :: nat] []) (\<lambda>(a, h1).
         bindE (SimpleVector_init 0 0 [1, 2, 3] h1) (\<lambda>(b, h2). operator_less a b h2)) = Inr True
     \<and> bindE (SimpleVector_init 0 0 [1, 3 :: nat] []) (\<lambda>(a, h1).
         bindE (SimpleVector_init 0 0 [1, 2, 9] h1) (\<lambda>(b, h2). operator_greater a b h2)) = Inr True"
proof (intro conjI)
  have l: "length (elements h lhs) = size_m lhs" "length (elements h rhs) = size_m rhs"
    using assms by (simp_all add: length_elements)
  have "(size_m lhs = size_m rhs \<and> elements h lhs = elements h rhs)
      = (size_m lhs = size_m rhs \<and> (\<forall>i < size_m lhs. elements h lhs ! i = elements h rhs ! i))"
    using l by (auto simp: list_eq_iff_nth_eq)
  then show "operator_eq same lhs rhs h =
           Inr (GetSize lhs = GetSize rhs
                \<and> (\<forall>i < GetSize lhs. elements h lhs ! i = elements h rhs ! i))"
    using operator_eq_spec [OF assms] by (simp add: GetSize_def)
next
  show "operator_eq True lhs lhs h = Inr True" by (simp add: operator_eq_def)
next
  show lt: "operator_less lhs rhs h = Inr (lexicographic_less (elements h lhs) (elements h rhs))"
    using operator_less_spec [OF assms(1,2)] by (simp add: lexordp_lexicographic_less)
  show "\<forall>ys. ys \<noteq> [] \<and> elements h rhs = elements h lhs @ ys \<longrightarrow> operator_less lhs rhs h = Inr True"
    using lt by (auto simp: lexicographic_less_prefix)
next
  show "bindE (SimpleVector_init 0 0 [1, 2, 3 :: nat] []) (\<lambda>(a, h1).
         bindE (SimpleVector_init 0 0 [1, 2, 3] h1) (\<lambda>(b, h2). operator_eq False a b h2)) = Inr True"
    by code_simp
next
  show "bindE (SimpleVector_init 0 0 [1, 2 :: nat] []) (\<lambda>(a, h1).
         bindE (SimpleVector_init 0 0 [1, 2, 3] h1) (\<lambda>(b, h2). operator_less a b h2)) = Inr True"
    by code_simp
next
  show "bindE (SimpleVector_init 0 0 [1, 3 :: nat] []) (\<lambda>(a, h1).
         bindE (SimpleVector_init 0 0 [1, 2, 9] h1) (\<lambda>(b, h2). operator_greater a b h2)) = Inr True"
    by code_simp
qed

theorem comparison_operators_witness:
  "valid [Some [10, 20 :: nat], Some [10, 20, 30]] \<lparr>items_m = Some 0, size_m = 2, capacity_m = 2\<rparr>
   \<and> valid [Some [10, 20 :: nat], Some [10, 20, 30]] \<lparr>items_m = Some 1, size_m = 3, capacity_m = 3\<rparr>
   \<and> operator_eq False \<lparr>items_m = Some 0, size_m = 2, capacity_m = 2\<rparr>
        \<lparr>items_m = Some 1, size_m = 3, capacity_m = 3\<rparr> [Some [10, 20 :: nat], Some [10, 20, 30]] = Inr False
   \<and> operator_less \<lparr>items_m = Some 0, size_m = 2, capacity_m = 2\<rparr>
        \<lparr>items_m = Some 1, size_m = 3, capacity_m = 3\<rparr> [Some [10, 20 :: nat], Some [10, 20, 30]] = Inr True"
proof -
  have s: "False \<longrightarrow> \<lparr>items_m = Some 0, size_m = 2, capacity_m = 2\<rparr>
                  = \<lparr>items_m = Some 1, size_m = 3, capacity_m = 3\<rparr>"
    by simp
  note a = comparison_operators [OF example_pair(1) example_pair(2) s, unfolded example_pair]
  from a have "operator_eq False \<lparr>items_m = Some 0, size_m = 2, capacity_m = 2\<rparr>
        \<lparr>items_m = Some 1, size_m = 3, capacity_m = 3\<rparr> [Some [10, 20 :: nat], Some [10, 20, 30]] = Inr False"
    by simp
  moreover from a have "operator_less \<lparr>items_m = Some 0, size_m = 2, capacity_m = 2\<rparr>
        \<lparr>items_m = Some 1, size_m = 3, capacity_m = 3\<rparr> [Some [10, 20 :: nat], Some [10, 20, 30]] = Inr True"
    by simp
  ultimately show ?thesis using example_pair(1,2) by simp
qed

text \<open>
  C10. On a vector that satisfies the class invariant, \<^verbatim>\<open>PopBack\<close> (when the vector is not
  empty) and \<^verbatim>\<open>Erase\<close> at \<open>begin() + i\<close> (when \<open>i\<close> is less than the size) return and leave
  the capacity as it was. After \<^verbatim>\<open>PopBack\<close> every element before the last position is
  unchanged; after \<^verbatim>\<open>Erase\<close> every element before position \<open>i\<close> is unchanged and each
  element that was at a position \<open>j\<close> in \<open>(i, size)\<close> is at position \<open>j - 1\<close>.
\<close>

theorem PopBack_Erase_frame:
  assumes "valid h v"
  shows "(\<not> IsEmpty v \<longrightarrow>
            (\<exists>v'. PopBack v = Inr v' \<and> GetCapacity v' = GetCapacity v
               \<and> GetSize v' = GetSize v - 1
               \<and> (\<forall>j < GetSize v - 1. elements h v' ! j = elements h v ! j)))
     \<and> (i < GetSize v \<longrightarrow>
            (\<exists>it v' h'. Erase (ptr_add (begin_it v) i) v h = Inr (it, v', h')
               \<and> GetCapacity v' = GetCapacity v \<and> GetSize v' = GetSize v - 1
               \<and> (\<forall>j < i. elements h' v' ! j = elements h v ! j)
               \<and> (\<forall>j. i < j \<and> j < GetSize v \<longrightarrow> elements h' v' ! (j - 1) = elements h v ! j)))"
proof (intro conjI impI)
  assume "\<not> IsEmpty v"
  then have n: "size_m v \<noteq> 0" by (simp add: IsEmpty_def)
  from PopBack_spec [OF assms n] length_elements [OF assms]
  show "\<exists>v'. PopBack v = Inr v' \<and> GetCapacity v' = GetCapacity v
               \<and> GetSize v' = GetSize v - 1
               \<and> (\<forall>j < GetSize v - 1. elements h v' ! j = elements h v ! j)"
    by (simp add: GetSize_def GetCapacity_def nth_butlast)
next
  assume "i < GetSize v"
  then have i: "i < size_m v" by (simp add: GetSize_def)
  from Erase_spec [OF assms i]
  obtain v' h' where e: "Erase (ptr_add (begin_it v) i) v h = Inr (ptr_add (begin_it v) i, v', h')"
    "size_m v' = size_m v - 1" "capacity_m v' = capacity_m v"
    "elements h' v' = take i (elements h v) @ drop (Suc i) (elements h v)"
    by blast
  have l: "length (elements h v) = size_m v" by (rule length_elements [OF assms])
  have 1: "\<forall>j < i. elements h' v' ! j = elements h v ! j"
    using e(4) i l by (simp add: nth_append)
  have 2: "\<forall>j. i < j \<and> j < GetSize v \<longrightarrow> elements h' v' ! (j - 1) = elements h v ! j"
    using e(4) i l by (auto simp: nth_append GetSize_def min_def)
  show "\<exists>it v' h'. Erase (ptr_add (begin_it v) i) v h = Inr (it, v', h')
               \<and> GetCapacity v' = GetCapacity v \<and> GetSize v' = GetSize v - 1
               \<and> (\<forall>j < i. elements h' v' ! j = elements h v ! j)
               \<and> (\<forall>j. i < j \<and> j < GetSize v \<longrightarrow> elements h' v' ! (j - 1) = elements h v ! j)"
    using e 1 2 by (auto simp: GetSize_def GetCapacity_def)
qed

theorem PopBack_Erase_frame_witness:
  "valid [Some [10, 20, 30, 0 :: nat]] \<lparr>items_m = Some 0, size_m = 3, capacity_m = 4\<rparr>
   \<and> \<not> IsEmpty \<lparr>items_m = Some 0, size_m = 3, capacity_m = 4\<rparr>
   \<and> 1 < GetSize \<lparr>items_m = Some 0, size_m = 3, capacity_m = 4\<rparr>
   \<and> (\<exists>v'. PopBack \<lparr>items_m = Some 0, size_m = 3, capacity_m = 4\<rparr> = Inr v'
        \<and> GetCapacity v' = 4 \<and> GetSize v' = 2)
   \<and> (\<exists>it v' h'. Erase (ptr_add (begin_it \<lparr>items_m = Some 0, size_m = 3, capacity_m = 4\<rparr>) 1)
            \<lparr>items_m = Some 0, size_m = 3, capacity_m = 4\<rparr> [Some [10, 20, 30, 0 :: nat]] = Inr (it, v', h')
        \<and> GetCapacity v' = 4 \<and> GetSize v' = 2
        \<and> elements h' v' ! 0 = 10 \<and> elements h' v' ! 1 = 30)"
proof -
  note t = PopBack_Erase_frame [OF example_valid, of 1, unfolded example_size example_elements]
  from t have "\<exists>v'. PopBack \<lparr>items_m = Some 0, size_m = 3, capacity_m = 4\<rparr> = Inr v'
        \<and> GetCapacity v' = 4 \<and> GetSize v' = 2"
    by auto
  moreover from t obtain it v' h' where e:
    "Erase (ptr_add (begin_it \<lparr>items_m = Some 0, size_m = 3, capacity_m = 4\<rparr>) 1)
            \<lparr>items_m = Some 0, size_m = 3, capacity_m = 4\<rparr> [Some [10, 20, 30, 0 :: nat]] = Inr (it, v', h')"
    "GetCapacity v' = 4" "GetSize v' = 3 - 1"
    "\<forall>j<1. elements h' v' ! j = [10, 20, 30] ! j"
    "\<forall>j. 1 < j \<and> j < 3 \<longrightarrow> elements h' v' ! (j - 1) = [10, 20, 30] ! j"
    by auto
  have "elements h' v' ! 0 = 10" using e(4) by simp
  moreover have "elements h' v' ! 1 = 30" using e(5) [rule_format, of 2] by simp
  ultimately show ?thesis
    using e(1,2,3) by (simp add: example_valid example_size)
qed

end
